theory Spec2Isabelle
  imports Main
begin

text \<open>
  A model of the console engine of \<open>vmtest\<close>: the pump that copies the serial
  console of the emulator into a line buffer, the waits \<open>ConsoleExpect\<close> and
  \<open>ConsoleExpectRE\<close> that consume it, and the start and the termination of the
  emulator.  The source holds two revisions of \<^verbatim>\<open>qemu.go\<close>; the model follows the
  later one, which has \<open>Kill\<close> and \<open>Shutdown\<close>.  The bodies of \<open>consolePump\<close>,
  \<open>ConsoleExpect\<close>, \<open>ConsoleExpectRE\<close> and \<open>consoleProcess\<close> are the same in both
  apart from the pattern \<open>ansiRe\<close>.
\<close>

section \<open>Bytes\<close>

text \<open>
  Go's \<^verbatim>\<open>[]byte\<close> and \<^verbatim>\<open>string\<close> are byte sequences; \<^typ>\<open>char\<close> is an
  8-bit byte, so both are modelled as \<^typ>\<open>char list\<close>.
\<close>

type_synonym bytes = "char list"

definition ESC :: char where
  "ESC = CHR 0x1B"

definition NL :: char where
  "NL = CHR 0x0A"

text \<open>\<^verbatim>\<open>bytes.IndexByte\<close>: index of the first occurrence, \<open>None\<close> for Go's \<open>-1\<close>.\<close>

fun IndexByte :: "bytes \<Rightarrow> char \<Rightarrow> nat option" where
  "IndexByte [] c = None"
| "IndexByte (x # xs) c = (if x = c then Some 0 else map_option Suc (IndexByte xs c))"

text \<open>\<^verbatim>\<open>bytes.LastIndexByte\<close>: index of the last occurrence, \<open>None\<close> for \<open>-1\<close>.\<close>

fun LastIndexByte :: "bytes \<Rightarrow> char \<Rightarrow> nat option" where
  "LastIndexByte [] c = None"
| "LastIndexByte (x # xs) c =
     (case LastIndexByte xs c of
        Some i \<Rightarrow> Some (Suc i)
      | None \<Rightarrow> (if x = c then Some 0 else None))"

text \<open>\<^verbatim>\<open>bytes.Contains(b, sub)\<close>: \<open>sub\<close> occurs in \<open>b\<close> as a contiguous block.\<close>

fun hasPrefix :: "bytes \<Rightarrow> bytes \<Rightarrow> bool" where
  "hasPrefix b [] = True"
| "hasPrefix [] (y # ys) = False"
| "hasPrefix (x # xs) (y # ys) = (x = y \<and> hasPrefix xs ys)"

fun Contains :: "bytes \<Rightarrow> bytes \<Rightarrow> bool" where
  "Contains [] sub = hasPrefix [] sub"
| "Contains (x # xs) sub = (hasPrefix (x # xs) sub \<or> Contains xs sub)"

section \<open>Regular expressions of the standard library\<close>

text \<open>
  The repository uses \<^verbatim>\<open>regexp.Regexp\<close> through \<^verbatim>\<open>ReplaceAll\<close> (the pump's
  \<^verbatim>\<open>ansiRe\<close>) and \<^verbatim>\<open>FindAllSubmatch\<close> (\<^verbatim>\<open>ConsoleExpectRE\<close>).  The package is
  not part of the repository; it is modelled by a backtracking matcher with Go's
  leftmost-first preference: alternatives are tried left to right, repetition is
  greedy, and the first success is the match.  Capturing groups are numbered
  from 1 as in Go.
\<close>

datatype regex =
    Lit char
  | Class "char list"
  | Cat regex regex
  | Alt regex regex
  | Star regex
  | Plus regex
  | Cap nat regex

type_synonym caps = "(nat \<times> bytes) list"

text \<open>
  \<open>rmatch r n s c k\<close> matches \<open>r\<close> at the front of \<open>s\<close> and hands the rest of
  the input and the captures to the continuation \<open>k\<close>; \<open>n\<close> bounds the number
  of iterations of a repetition and is always chosen above the input length.

  Go compiles \<^verbatim>\<open>x+\<close> to \<open>x\<close> followed by a loop that tries \<open>x\<close> again before
  it leaves, and \<^verbatim>\<open>x*\<close> to \<^verbatim>\<open>(x+)?\<close>.  At one input position the loop is
  entered once: the first pass of a repetition may consume nothing, and the
  repetition then ends with the captures of that pass; a later pass that
  consumes nothing is dropped.  \<open>rloop r n s c k\<close> is the loop, behind a pass
  that consumed input.
\<close>

function rmatch :: "regex \<Rightarrow> nat \<Rightarrow> bytes \<Rightarrow> caps \<Rightarrow> (bytes \<Rightarrow> caps \<Rightarrow> 'a option) \<Rightarrow> 'a option"
  and rloop :: "regex \<Rightarrow> nat \<Rightarrow> bytes \<Rightarrow> caps \<Rightarrow> (bytes \<Rightarrow> caps \<Rightarrow> 'a option) \<Rightarrow> 'a option" where
  "rmatch (Lit a) n s c k =
     (case s of [] \<Rightarrow> None | x # xs \<Rightarrow> if x = a then k xs c else None)"
| "rmatch (Class as) n s c k =
     (case s of [] \<Rightarrow> None | x # xs \<Rightarrow> if x \<in> set as then k xs c else None)"
| "rmatch (Cat r1 r2) n s c k = rmatch r1 n s c (\<lambda>s' c'. rmatch r2 n s' c' k)"
| "rmatch (Alt r1 r2) n s c k =
     (case rmatch r1 n s c k of Some x \<Rightarrow> Some x | None \<Rightarrow> rmatch r2 n s c k)"
| "rmatch (Plus r) n s c k =
     rmatch r n s c (\<lambda>s' c'. if length s' < length s then rloop r n s' c' k else k s' c')"
| "rmatch (Star r) n s c k =
     (case rmatch r n s c
             (\<lambda>s' c'. if length s' < length s then rloop r n s' c' k else k s' c') of
        Some x \<Rightarrow> Some x
      | None \<Rightarrow> k s c)"
| "rmatch (Cap i r) n s c k =
     rmatch r n s c (\<lambda>s' c'. k s' ((i, take (length s - length s') s) # c'))"
| "rloop r 0 s c k = k s c"
| "rloop r (Suc n) s c k =
     (case rmatch r (Suc n) s c
             (\<lambda>s' c'. if length s' < length s then rloop r n s' c' k else None) of
        Some x \<Rightarrow> Some x
      | None \<Rightarrow> k s c)"
  by pat_completeness auto
termination
  by (relation "inv_image (less_than <*lex*> less_than)
        (\<lambda>x. case x of
           Inl (r, n, s, c, k) \<Rightarrow> (2 * size r, n)
         | Inr (r, n, s, c, k) \<Rightarrow> (Suc (2 * size r), n))") auto

text \<open>The match anchored at the front of \<open>s\<close>: its length and its captures.\<close>

definition matchHere :: "regex \<Rightarrow> bytes \<Rightarrow> (nat \<times> caps) option" where
  "matchHere r s =
     rmatch r (Suc (length s)) s [] (\<lambda>s' c. Some (length s - length s', c))"

text \<open>
  The leftmost match in \<open>s\<close>: the offset where it starts, its length and its
  captures (\<^verbatim>\<open>doExecute\<close> on an unanchored pattern).
\<close>

fun firstMatch :: "regex \<Rightarrow> bytes \<Rightarrow> (nat \<times> nat \<times> caps) option" where
  "firstMatch r [] = map_option (\<lambda>(l, c). (0, l, c)) (matchHere r [])"
| "firstMatch r (x # xs) =
     (case matchHere r (x # xs) of
        Some (l, c) \<Rightarrow> Some (0, l, c)
      | None \<Rightarrow> map_option (\<lambda>(i, l, c). (Suc i, l, c)) (firstMatch r xs))"

text \<open>Number of capturing groups (\<^verbatim>\<open>NumSubexp\<close>): the largest group index.\<close>

fun NumSubexp :: "regex \<Rightarrow> nat" where
  "NumSubexp (Lit a) = 0"
| "NumSubexp (Class as) = 0"
| "NumSubexp (Cat r1 r2) = max (NumSubexp r1) (NumSubexp r2)"
| "NumSubexp (Alt r1 r2) = max (NumSubexp r1) (NumSubexp r2)"
| "NumSubexp (Star r) = NumSubexp r"
| "NumSubexp (Plus r) = NumSubexp r"
| "NumSubexp (Cap i r) = max i (NumSubexp r)"

text \<open>
  One element of the result of \<^verbatim>\<open>FindAllSubmatch\<close>: the whole match followed
  by one entry per group, \<open>None\<close> (a nil slice) for a group that took no part.
  A group inside a repetition keeps its last capture; the newest capture is at
  the front of the list, so \<^const>\<open>map_of\<close> finds it.
\<close>

definition submatch :: "regex \<Rightarrow> bytes \<Rightarrow> caps \<Rightarrow> bytes option list" where
  "submatch r whole c = Some whole # map (\<lambda>i. map_of c i) [1 ..< Suc (NumSubexp r)]"

text \<open>
  \<^verbatim>\<open>re.FindAllSubmatch(b, -1)\<close>: successive non-overlapping leftmost matches.
  After a match the search resumes at its end, and at least one byte further
  on; an empty match that abuts the preceding match is ignored
  (\<open>adj\<close> says that the search position is the end of the preceding match,
  which it is not after the one-byte step past an empty match).
  The empty list stands for Go's nil result.
\<close>

function FindAllSubmatch_from :: "regex \<Rightarrow> bool \<Rightarrow> bytes \<Rightarrow> bytes option list list" where
  "FindAllSubmatch_from r adj s =
     (case firstMatch r s of
        None \<Rightarrow> []
      | Some (i, l, c) \<Rightarrow>
          (let m = submatch r (take l (drop i s)) c;
               acc = (if l = 0 \<and> i = 0 \<and> adj then [] else [m])
           in if s = [] then acc
              else acc @ FindAllSubmatch_from r (0 < i + l) (drop (max 1 (i + l)) s)))"
  by pat_completeness auto
termination
  by (relation "measure (\<lambda>(r, adj, s). length s)") auto

definition FindAllSubmatch :: "regex \<Rightarrow> bytes \<Rightarrow> bytes option list list" where
  "FindAllSubmatch r b = FindAllSubmatch_from r False b"

text \<open>
  \<^verbatim>\<open>re.ReplaceAll(src, []byte{})\<close>: the input with every match of the successive
  leftmost non-overlapping matches cut out.
\<close>

function ReplaceAll :: "regex \<Rightarrow> bytes \<Rightarrow> bytes" where
  "ReplaceAll r s =
     (case firstMatch r s of
        None \<Rightarrow> s
      | Some (i, l, c) \<Rightarrow>
          (if s = [] then []
           else if i + l = 0 then hd s # ReplaceAll r (tl s)
           else take i s @ ReplaceAll r (drop (i + l) s)))"
  by pat_completeness auto
termination
  by (relation "measure (\<lambda>(r, s). length s)") auto

text \<open>Literal text as a pattern; the text is never empty where it is used.\<close>

fun Str :: "bytes \<Rightarrow> regex" where
  "Str [] = Star (Class [])"
| "Str [a] = Lit a"
| "Str (a # as) = Cat (Lit a) (Str as)"

definition digit :: regex where
  "digit = Class ''0123456789''"

text \<open>
  \<^verbatim>\<open>var ansiRe = regexp.MustCompile(`\x1b(c|M|\[(\d+;\d+H|=3h|[\d;]+m|\?7l|2J|K))`)\<close>;
  \<open>csi\<close> is the inner group, the alternatives after \<^verbatim>\<open>\x1b[\<close>.
\<close>

definition csi :: regex where
  "csi =
     Alt (Cat (Plus digit) (Cat (Lit (CHR '';'')) (Cat (Plus digit) (Lit (CHR ''H'')))))
    (Alt (Str ''=3h'')
    (Alt (Cat (Plus (Class ''0123456789;'')) (Lit (CHR ''m'')))
    (Alt (Str ''?7l'')
    (Alt (Str ''2J'')
         (Lit (CHR ''K''))))))"

definition ansiRe :: regex where
  "ansiRe =
     Cat (Lit ESC)
       (Cap 1 (Alt (Lit (CHR ''c''))
              (Alt (Lit (CHR ''M''))
                   (Cat (Lit (CHR ''['')) (Cap 2 csi)))))"

section \<open>The line buffer\<close>

text \<open>
  Go's \<^verbatim>\<open>error\<close> values that the console code tells apart: \<^verbatim>\<open>io.EOF\<close> and
  every other error, kept with its message.
\<close>

datatype error = io_EOF | Err string

text \<open>
  The fields of \<^verbatim>\<open>Qemu\<close> shared by the pump and the matcher
  (\<open>consoleData\<close>, \<open>consoleDataArrived\<close>, \<open>consoleDataEOF\<close>), together with the
  two process-wide sinks the console code writes to: \<^verbatim>\<open>os.Stdout\<close> and the
  standard logger.
\<close>

record qemu =
  consoleData :: bytes
  consoleDataArrived :: bool
  consoleDataEOF :: bool
  stdout :: bytes
  logged :: "string list"

section \<open>The stream pump\<close>

definition asciiSeqMaxLength :: nat where
  "asciiSeqMaxLength = 30"

text \<open>
  The block \<^verbatim>\<open>if bytes.Contains(toPrint, []byte{'\x1b'}) { ... }\<close> of \<open>consolePump\<close>:
  from \<open>toPrint\<close> to the bytes to print and the tail copied back to the front of
  \<open>buf\<close> (the new \<open>buf[:dataLength]\<close>).
\<close>

definition escFilter :: "bytes \<Rightarrow> bytes \<times> bytes" where
  "escFilter toPrint =
     (if Contains toPrint [ESC] then
        (let toPrint' = ReplaceAll ansiRe toPrint in
         case LastIndexByte toPrint' ESC of
           None \<Rightarrow> (toPrint', [])
         | Some asciiStart \<Rightarrow>
             if length toPrint' - asciiStart < asciiSeqMaxLength
             then (take asciiStart toPrint', drop asciiStart toPrint')
             else (toPrint', []))
      else (toPrint, []))"

text \<open>
  The branch \<^verbatim>\<open>if num > 0\<close> of one pump iteration.  \<open>carry\<close> is \<open>buf[:dataLength]\<close>
  on entry, \<open>data\<close> the bytes that \<open>Read\<close> stored behind it; the result is the new
  \<open>buf[:dataLength]\<close> and the state after the locked append.
\<close>

definition pumpData :: "bool \<Rightarrow> bytes \<Rightarrow> bytes \<Rightarrow> qemu \<Rightarrow> bytes \<times> qemu" where
  "pumpData verbose carry data q =
     (let (toPrint, carry') = escFilter (carry @ data);
          q1 = (if verbose then q\<lparr>stdout := stdout q @ toPrint\<rparr> else q)
      in (carry', q1\<lparr>consoleData := consoleData q1 @ toPrint, consoleDataArrived := True\<rparr>))"

text \<open>
  The pump's own state: running with \<open>buf[:dataLength]\<close>, or returned.
\<close>

datatype pump = Pumping bytes | PumpExited

text \<open>
  One iteration of the loop of \<open>consolePump\<close>, given the result \<open>(data, err)\<close> of
  \<^verbatim>\<open>q.console.Read(buf[dataLength:])\<close>, where \<open>num\<close> is \<open>length data\<close>.  \<open>Read\<close> never
  returns more than the \<open>4096 - dataLength\<close> bytes that fit.  A zero-byte read
  without error sleeps and iterates.
\<close>

definition consolePump_iter :: "bool \<Rightarrow> bytes \<times> error option \<Rightarrow> bytes \<Rightarrow> qemu \<Rightarrow> pump \<times> qemu" where
  "consolePump_iter verbose rd carry q =
     (let (data, err) = rd;
          (carry', q1) = (if 0 < length data then pumpData verbose carry data q else (carry, q))
      in case err of
           Some e \<Rightarrow>
             (PumpExited,
              case e of
                io_EOF \<Rightarrow> q1\<lparr>consoleDataEOF := True\<rparr>
              | Err msg \<Rightarrow> q1\<lparr>logged := logged q1 @ [msg]\<rparr>)
         | None \<Rightarrow> (Pumping carry', q1))"

section \<open>The expectation matcher\<close>

text \<open>
  A \<^verbatim>\<open>LineProcessor\<close> is a Go closure: besides its verdict it may update the
  variables it captured (\<open>'s\<close>), and it may panic (\<open>None\<close>).
\<close>

type_synonym 's LineProcessor = "bytes \<Rightarrow> 's \<Rightarrow> (bool \<times> 's) option"

text \<open>
  The inner \<^verbatim>\<open>for\<close> loop of \<open>consoleProcess\<close> on the local \<open>buf\<close>: the verdict of the
  last fragment processed, and \<open>buf\<close> when the loop is left (by \<^verbatim>\<open>return\<close> on a
  match, by \<^verbatim>\<open>break\<close> after the fragment without a newline).
\<close>

function scanLines :: "'s LineProcessor \<Rightarrow> bytes \<Rightarrow> 's \<Rightarrow> (bool \<times> bytes \<times> 's) option" where
  "scanLines processor buf s =
     (case IndexByte buf NL of
        None \<Rightarrow>
          (case processor buf s of
             None \<Rightarrow> None
           | Some (matched, s') \<Rightarrow> Some (matched, buf, s'))
      | Some idx \<Rightarrow>
          (let toProcess = take (Suc idx) buf;
               buf' = drop (Suc idx) buf
           in case processor toProcess s of
                None \<Rightarrow> None
              | Some (matched, s') \<Rightarrow>
                  if matched then Some (True, buf', s')
                  else scanLines processor buf' s'))"
  by pat_completeness auto
termination
proof -
  have less: "i < length b" if "IndexByte b c = Some i" for b c i
    using that by (induction b arbitrary: i) (auto split: if_splits)
  show ?thesis
    by (relation "measure (\<lambda>(p, buf, s). length buf)") (auto dest: less)
qed

text \<open>The first locked section of the outer loop.\<close>

definition drain :: "bytes \<Rightarrow> qemu \<Rightarrow> (bytes \<times> bool \<times> bool) \<times> qemu" where
  "drain buf q =
     ((buf @ consoleData q, consoleDataArrived q, consoleDataEOF q),
      q\<lparr>consoleData := [], consoleDataArrived := False\<rparr>)"

text \<open>The locked section on a match: \<^verbatim>\<open>q.consoleData = append(buf, q.consoleData...)\<close>.\<close>

definition requeue :: "bytes \<Rightarrow> qemu \<Rightarrow> qemu" where
  "requeue buf q = q\<lparr>consoleData := buf @ consoleData q, consoleDataArrived := True\<rparr>"

text \<open>
  A call of \<open>consoleProcess\<close> in progress: at the head of the outer loop with its
  local \<open>buf\<close>, between the match and the second locked section, returned with
  its error (\<open>None\<close> for nil), or panicked.  The second component is the state
  of the processor's captured variables.
\<close>

datatype 's call =
    AtLoop bytes 's
  | Matched bytes 's
  | Returned "error option" 's
  | Panicked

text \<open>
  One atomic step of \<open>consoleProcess\<close>: from the head of the outer loop through
  the first locked section and the scan of the local buffer (which touches no
  shared field), or the locked section after a match followed by the return.
  The pump may run between two steps.
\<close>

definition consoleProcess_step :: "'s LineProcessor \<Rightarrow> 's call \<Rightarrow> qemu \<Rightarrow> 's call \<times> qemu" where
  "consoleProcess_step processor c q =
     (case c of
        AtLoop buf s \<Rightarrow>
          (let ((buf', newDataArrived, consoleDataEOF'), q') = drain buf q
           in if newDataArrived then
                (case scanLines processor buf' s of
                   None \<Rightarrow> (Panicked, q')
                 | Some (matched, buf'', s') \<Rightarrow>
                     if matched then (Matched buf'' s', q') else (AtLoop buf'' s', q'))
              else if consoleDataEOF' then (Returned (Some io_EOF) s, q')
              else (AtLoop buf' s, q'))
      | Matched buf s \<Rightarrow> (Returned None s, requeue buf q)
      | Returned e s \<Rightarrow> (c, q)
      | Panicked \<Rightarrow> (c, q))"

text \<open>\<open>ConsoleExpect\<close>: the processor captures nothing.\<close>

definition ConsoleExpect_p :: "string \<Rightarrow> unit LineProcessor" where
  "ConsoleExpect_p str data u = Some (Contains data str, u)"

text \<open>
  \<open>ConsoleExpectRE\<close>: the processor captures \<open>matches\<close>.  \<open>s[1]\<close> panics when the
  submatch slice has no index 1; \<^verbatim>\<open>string\<close> of a nil slice is the empty string.
\<close>

definition index1 :: "bytes option list \<Rightarrow> string option" where
  "index1 s =
     (if 1 < length s then Some (case s ! 1 of None \<Rightarrow> [] | Some b \<Rightarrow> b) else None)"

fun appendGroups :: "string list \<Rightarrow> bytes option list list \<Rightarrow> string list option" where
  "appendGroups matches [] = Some matches"
| "appendGroups matches (s # m) =
     (case index1 s of
        None \<Rightarrow> None
      | Some g \<Rightarrow> appendGroups (matches @ [g]) m)"

definition ConsoleExpectRE_p :: "regex \<Rightarrow> string list LineProcessor" where
  "ConsoleExpectRE_p re data matches =
     (let m = FindAllSubmatch re data
      in if m = [] then Some (False, matches)
         else map_option (\<lambda>matches'. (True, matches')) (appendGroups matches m))"

text \<open>
  What the caller of \<open>ConsoleExpect\<close> and \<open>ConsoleExpectRE\<close> receives from a
  returned call: the error, and the matches (nil with an error).
\<close>

definition ConsoleExpect_result :: "unit call \<Rightarrow> error option option" where
  "ConsoleExpect_result c = (case c of Returned e u \<Rightarrow> Some e | _ \<Rightarrow> None)"

definition ConsoleExpectRE_result :: "string list call \<Rightarrow> (error + string list) option" where
  "ConsoleExpectRE_result c =
     (case c of
        Returned (Some e) matches \<Rightarrow> Some (Inl e)
      | Returned None matches \<Rightarrow> Some (Inr matches)
      | _ \<Rightarrow> None)"

section \<open>Pump and matcher running together\<close>

text \<open>
  The console transport is given by the results of its successive \<open>Read\<close>
  calls.  A schedule says which of the two tasks takes its next atomic step:
  the pump one loop iteration (it waits in \<open>Read\<close> while the transport has
  nothing more to say), the matcher one step of \<open>consoleProcess\<close>.  Every
  access to a shared field counts as atomic, also the pump's write of
  \<open>consoleDataEOF\<close>, which the source does outside the mutex.
\<close>

record 's sys =
  shared :: qemu
  pumpSt :: pump
  console :: "(bytes \<times> error option) list"
  caller :: "'s call"

datatype task = P | M

definition pump_step :: "bool \<Rightarrow> 's sys \<Rightarrow> 's sys" where
  "pump_step verbose y =
     (case (pumpSt y, console y) of
        (Pumping carry, rd # rest) \<Rightarrow>
          (let (p', q') = consolePump_iter verbose rd carry (shared y)
           in y\<lparr>shared := q', pumpSt := p', console := rest\<rparr>)
      | _ \<Rightarrow> y)"

definition matcher_step :: "'s LineProcessor \<Rightarrow> 's sys \<Rightarrow> 's sys" where
  "matcher_step processor y =
     (let (c', q') = consoleProcess_step processor (caller y) (shared y)
      in y\<lparr>shared := q', caller := c'\<rparr>)"

fun run :: "bool \<Rightarrow> 's LineProcessor \<Rightarrow> task list \<Rightarrow> 's sys \<Rightarrow> 's sys" where
  "run verbose processor [] y = y"
| "run verbose processor (P # ts) y = run verbose processor ts (pump_step verbose y)"
| "run verbose processor (M # ts) y = run verbose processor ts (matcher_step processor y)"

text \<open>A fresh session: \<^verbatim>\<open>&Qemu{...}\<close> leaves the console fields zero.\<close>

definition newQemu :: qemu where
  "newQemu = \<lparr>consoleData = [], consoleDataArrived = False, consoleDataEOF = False,
              stdout = [], logged = []\<rparr>"

text \<open>A call entering \<open>consoleProcess\<close>: \<^verbatim>\<open>var buf []byte\<close>.\<close>

definition enter :: "'s \<Rightarrow> 's call" where
  "enter s = AtLoop [] s"

section \<open>Starting and stopping the emulator\<close>

text \<open>
  \<open>NewQemu\<close>, \<open>wait\<close>, \<open>Kill\<close> and \<open>Shutdown\<close> act on the operating system.  Each
  is modelled by the sequence of actions it performs, in program order, given
  the answers of the operating system; what a function returns to its caller
  is kept apart from that sequence.
\<close>

datatype action =
    TempDir
  | Listen string
  | LogPrint string
  | CmdStart string "string list" int
  | GoWait
  | CtxCancel
  | AcceptMonitor
  | AcceptConsole
  | GoConsolePump bool
  | MonitorWrite bytes
  | RecvWaitCh
  | ConsoleClose
  | ConsoleListenerClose
  | MonitorClose
  | MonitorListenerClose
  | RemoveAll string

datatype OperatingSystem = OS_OTHER | OS_LINUX

record QemuDisk =
  Path :: string
  Format :: string
  Controller :: string
  DeviceParams :: "string list"

text \<open>\<open>Timeout\<close> is a \<^verbatim>\<open>time.Duration\<close>, a number of nanoseconds.\<close>

record QemuOptions =
  Architecture :: string
  OperatingSystem :: OperatingSystem
  Params :: "string list"
  Verbose :: bool
  Timeout :: int
  Kernel :: string
  InitRamFs :: string
  Disks :: "QemuDisk list"
  Append :: "string list"
  CdRom :: string

definition qemuDefaultTimeout :: int where
  "qemuDefaultTimeout = 30 * 1000000000"

definition QEMU_X86_64 :: string where
  "QEMU_X86_64 = ''x86_64''"

text \<open>\<^verbatim>\<open>strings.Join\<close>, \<^verbatim>\<open>strings.ContainsAny\<close>, and \<^verbatim>\<open>%v\<close> of an index.\<close>

fun Join :: "string list \<Rightarrow> string \<Rightarrow> string" where
  "Join [] sep = []"
| "Join [x] sep = x"
| "Join (x # y # xs) sep = x @ sep @ Join (y # xs) sep"

definition ContainsAny :: "string \<Rightarrow> string \<Rightarrow> bool" where
  "ContainsAny s chars = list_ex (\<lambda>c. List.member chars c) s"

function itoa :: "nat \<Rightarrow> string" where
  "itoa n =
     (if n < 10 then [char_of (48 + n)]
      else itoa (n div 10) @ [char_of (48 + n mod 10)])"
  by pat_completeness auto
termination
  by (relation "measure id") auto

definition quoteCmdline :: "string list \<Rightarrow> string" where
  "quoteCmdline cmdline =
     Join (map (\<lambda>s. if ContainsAny s [CHR '' '', CHR 0x09, CHR 0x0A]
                     then [CHR 0x27] @ s @ [CHR 0x27] else s) cmdline) '' ''"

text \<open>
  The answers of the operating system to \<open>NewQemu\<close>: the directory made by
  \<^verbatim>\<open>ioutil.TempDir\<close> or its error, the errors of the two \<^verbatim>\<open>net.Listen\<close>, of
  \<^verbatim>\<open>cmd.Start\<close> and of the two \<^verbatim>\<open>Accept\<close>, and for each \<^verbatim>\<open>select\<close> after a failed
  \<^verbatim>\<open>Accept\<close> whether \<open>waitCh\<close> holds a value (\<open>Some\<close> of the error of \<^verbatim>\<open>cmd.Wait\<close>,
  itself \<open>None\<close> for nil) or the \<^verbatim>\<open>default\<close> case runs.
\<close>

record startWorld =
  tempDirResult :: "string + string"
  listenMonitorErr :: "string option"
  listenConsoleErr :: "string option"
  startErr :: "string option"
  acceptMonitorErr :: "string option"
  waitChAtMonitor :: "string option option"
  acceptConsoleErr :: "string option"
  waitChAtConsole :: "string option option"

text \<open>
  The fields \<open>socketsDir\<close> and \<open>verbose\<close> of \<^verbatim>\<open>Qemu\<close>; the connections, the
  listeners, the process and its context are named by the actions on them.
\<close>

record handle =
  socketsDir :: string
  verbose_field :: bool

text \<open>The arguments for the disks, \<^verbatim>\<open>for i, d := range opts.Disks\<close>.\<close>

fun diskArgs :: "nat \<Rightarrow> QemuDisk list \<Rightarrow> string list" where
  "diskArgs i [] = []"
| "diskArgs i (d # ds) =
     (let format = (if Format d \<noteq> [] then ''format='' @ Format d @ '','' else []);
          controller = (if Controller d = [] then ''scsi-hd'' else Controller d);
          drive = ''drive=hd'' @ itoa i;
          deviceParams = [controller, drive] @ DeviceParams d
      in [''-drive'', format @ ''if=none,id=hd'' @ itoa i @ '',file='' @ Path d,
          ''-device'', Join deviceParams '','']
         @ diskArgs (Suc i) ds)"

text \<open>The command line up to the check of \<open>opts.Append\<close>, and from there on.\<close>

definition cmdlineHead :: "string \<Rightarrow> string \<Rightarrow> QemuOptions \<Rightarrow> string list" where
  "cmdlineHead monitorFile consoleFile opts =
     [''-monitor'', ''unix:'' @ monitorFile,
      ''-serial'', ''unix:'' @ consoleFile,
      ''-no-reboot'',
      ''-nographic'', ''-display'', ''none'']
     @ (if Kernel opts \<noteq> [] then [''-kernel'', Kernel opts] else [])
     @ (if InitRamFs opts \<noteq> [] then [''-initrd'', InitRamFs opts] else [])"

definition cmdlineTail :: "QemuOptions \<Rightarrow> string list" where
  "cmdlineTail opts =
     (let kernelArgs = Append opts @
            (if OperatingSystem opts = OS_LINUX
             then [''console=ttyS0,115200'', ''ignore_loglevel''] else [])
      in (if 0 < length kernelArgs \<and> Kernel opts \<noteq> []
          then [''-append'', Join kernelArgs '' ''] else [])
         @ (if 0 < length (Params opts) then Params opts else [])
         @ (if CdRom opts \<noteq> [] then [''-boot'', ''d'', ''-cdrom'', CdRom opts] else [])
         @ (if 0 < length (Disks opts) then [''-device'', ''virtio-scsi-pci,id=scsi''] else [])
         @ diskArgs 0 (Disks opts))"

text \<open>
  \<open>NewQemu\<close> from \<^verbatim>\<open>cmd.Start\<close> on: the actions, and the pair \<^verbatim>\<open>(*Qemu, error)\<close>
  returned.
\<close>

definition launch ::
  "startWorld \<Rightarrow> QemuOptions \<Rightarrow> string \<Rightarrow> string \<Rightarrow> string list
     \<Rightarrow> action list \<times> handle option \<times> string option" where
  "launch w opts tempDir qemuBinary cmdline =
     (let logging = (if Verbose opts
                     then [LogPrint (''QEMU command line: '' @ qemuBinary @ '' '' @ quoteCmdline cmdline)]
                     else []);
          started = logging @ [CmdStart qemuBinary cmdline (Timeout opts)]
      in case startErr w of
           Some err \<Rightarrow> (started @ [CtxCancel], None, Some (''starting QEMU: '' @ err))
         | None \<Rightarrow>
             (case acceptMonitorErr w of
                Some err \<Rightarrow>
                  (started @ [GoWait, AcceptMonitor], None,
                   case waitChAtMonitor w of Some waitErr \<Rightarrow> waitErr | None \<Rightarrow> Some err)
              | None \<Rightarrow>
                  (case acceptConsoleErr w of
                     Some err \<Rightarrow>
                       (started @ [GoWait, AcceptMonitor, AcceptConsole], None,
                        case waitChAtConsole w of Some waitErr \<Rightarrow> waitErr | None \<Rightarrow> Some err)
                   | None \<Rightarrow>
                       (started @ [GoWait, AcceptMonitor, AcceptConsole, GoConsolePump (Verbose opts)],
                        Some \<lparr>socketsDir = tempDir, verbose_field = Verbose opts\<rparr>, None))))"

text \<open>
  \<open>NewQemu\<close>: the options as the function leaves them behind its pointer
  argument, the actions, and the pair returned.  \<^verbatim>\<open>path.Join\<close> of the directory
  of \<^verbatim>\<open>TempDir\<close> and a file name puts a slash between them.
\<close>

definition NewQemu ::
  "startWorld \<Rightarrow> QemuOptions
     \<Rightarrow> QemuOptions \<times> action list \<times> handle option \<times> string option" where
  "NewQemu w opts0 =
     (let opts1 = (if Timeout opts0 = 0 then opts0\<lparr>Timeout := qemuDefaultTimeout\<rparr> else opts0);
          opts = (if Architecture opts1 = [] then opts1\<lparr>Architecture := QEMU_X86_64\<rparr> else opts1)
      in case tempDirResult w of
           Inl err \<Rightarrow> (opts, [TempDir], None, Some err)
         | Inr tempDir \<Rightarrow>
             (let monitorFile = tempDir @ ''/monitor.socket''
              in case listenMonitorErr w of
                   Some err \<Rightarrow> (opts, [TempDir, Listen monitorFile], None, Some err)
                 | None \<Rightarrow>
                     (let consoleFile = tempDir @ ''/console.socket''
                      in case listenConsoleErr w of
                           Some err \<Rightarrow>
                             (opts, [TempDir, Listen monitorFile, Listen consoleFile], None, Some err)
                         | None \<Rightarrow>
                             (let qemuBinary = ''qemu-system-'' @ Architecture opts;
                                  cmdline = cmdlineHead monitorFile consoleFile opts
                              in if Kernel opts = [] \<and> 0 < length (Append opts)
                                 then (opts, [TempDir, Listen monitorFile, Listen consoleFile], None,
                                       Some ''opts.Append only allowed with opts.Kernel option'')
                                 else (case launch w opts tempDir qemuBinary (cmdline @ cmdlineTail opts) of
                                         (acts, res) \<Rightarrow>
                                           (opts, [TempDir, Listen monitorFile, Listen consoleFile] @ acts,
                                            res))))))"

text \<open>The actions of a call of \<open>NewQemu\<close> that start the emulator process.\<close>

definition spawned :: "action list \<Rightarrow> action list" where
  "spawned acts = filter (\<lambda>a. case a of CmdStart b c t \<Rightarrow> True | _ \<Rightarrow> False) acts"

text \<open>
  The answers of the operating system to a termination call: the error of
  the write to the monitor, the value received from \<open>waitCh\<close>, and the error of
  \<^verbatim>\<open>os.RemoveAll\<close>.
\<close>

record stopWorld =
  monitorWriteErr :: "string option"
  waitChValue :: "string option"
  removeAllErr :: "string option"

definition wait :: "stopWorld \<Rightarrow> handle \<Rightarrow> action list" where
  "wait w q =
     [RecvWaitCh]
     @ (case waitChValue w of
          Some err \<Rightarrow> [LogPrint (''Got error while waiting for Qemu process completion: '' @ err)]
        | None \<Rightarrow> [])
     @ [CtxCancel, ConsoleClose, ConsoleListenerClose, MonitorClose, MonitorListenerClose,
        RemoveAll (socketsDir q)]
     @ (case removeAllErr w of
          Some err \<Rightarrow> [LogPrint (''Cannot remove temporary dir '' @ socketsDir q @ '': '' @ err)]
        | None \<Rightarrow> [])"

text \<open>\<open>Kill\<close> and \<open>Shutdown\<close> have no result: nothing is returned to the caller.\<close>

definition Kill :: "stopWorld \<Rightarrow> handle \<Rightarrow> action list" where
  "Kill w q =
     [MonitorWrite ''quit\<newline>'']
     @ (case monitorWriteErr w of Some err \<Rightarrow> [LogPrint (''monitor: '' @ err)] | None \<Rightarrow> [])
     @ wait w q"

definition Shutdown :: "stopWorld \<Rightarrow> handle \<Rightarrow> action list" where
  "Shutdown w q =
     [MonitorWrite ''system_powerdown\<newline>'']
     @ (case monitorWriteErr w of Some err \<Rightarrow> [LogPrint (''monitor: '' @ err)] | None \<Rightarrow> [])
     @ wait w q"

text \<open>The bytes written to the monitor, and the actions other than log lines.\<close>

definition monitorWrites :: "action list \<Rightarrow> bytes list" where
  "monitorWrites acts = concat (map (\<lambda>a. case a of MonitorWrite b \<Rightarrow> [b] | _ \<Rightarrow> []) acts)"

definition effects :: "action list \<Rightarrow> action list" where
  "effects acts = filter (\<lambda>a. case a of LogPrint l \<Rightarrow> False | _ \<Rightarrow> True) acts"

section \<open>Notions of the specification used to state the properties\<close>

text \<open>
  The candidate fragments of a buffer: its lines, each with its terminator, in
  order, and last the remainder without terminator (which may be empty).
\<close>

function fragments :: "bytes \<Rightarrow> bytes list" where
  "fragments buf =
     (case IndexByte buf NL of
        None \<Rightarrow> [buf]
      | Some idx \<Rightarrow> take (Suc idx) buf # fragments (drop (Suc idx) buf))"
  by pat_completeness auto
termination
proof -
  have less: "i < length b" if "IndexByte b c = Some i" for b c i
    using that by (induction b arbitrary: i) (auto split: if_splits)
  show ?thesis
    by (relation "measure length") (auto dest: less)
qed

text \<open>
  The scan of the specification: the processor is applied to the fragments in
  list order up to the first match.  With the verdict come the fragments
  behind the matching one, those not yet examined (none when no fragment
  matches).
\<close>

fun scanFrags :: "'s LineProcessor \<Rightarrow> bytes list \<Rightarrow> 's \<Rightarrow> (bool \<times> bytes list \<times> 's) option" where
  "scanFrags processor [] s = Some (False, [], s)"
| "scanFrags processor (f # fs) s =
     (case processor f s of
        None \<Rightarrow> None
      | Some (matched, s') \<Rightarrow>
          if matched then Some (True, fs, s')
          else scanFrags processor fs s')"

text \<open>
  What the inner loop of \<open>consoleProcess\<close> leaves in its local buffer, in terms
  of that scan: the bytes of the fragments not yet examined, and when there
  are none (the last fragment matched, or none did) the last fragment itself.
\<close>

definition leftInBuf :: "bytes list \<Rightarrow> bytes list \<Rightarrow> bytes" where
  "leftInBuf frags later = (if later = [] then last frags else concat later)"

text \<open>\<^verbatim>\<open>string(s[i])\<close> for an entry of a submatch slice.\<close>

definition group :: "bytes option \<Rightarrow> string" where
  "group g = (case g of None \<Rightarrow> [] | Some b \<Rightarrow> b)"

text \<open>
  The result of a pattern wait in the words of the specification: every
  captured group of every match, in order of appearance.
\<close>

definition allGroups :: "bytes option list list \<Rightarrow> string list" where
  "allGroups m = concat (map (\<lambda>s. map group (tl s)) m)"

text \<open>The first captured group of every match.\<close>

definition firstGroups :: "bytes option list list \<Rightarrow> string list" where
  "firstGroups m = map (\<lambda>s. group (s ! 1)) m"

text \<open>The pattern \<^verbatim>\<open>exit_code=(\d+)\<close> and the two-group pattern \<^verbatim>\<open>(\w+)=(\d+)\<close>.\<close>

definition exitCodeRe :: regex where
  "exitCodeRe = Cat (Str ''exit_code='') (Cap 1 (Plus digit))"

definition keyValueRe :: regex where
  "keyValueRe =
     Cat (Cap 1 (Plus (Class ''0123456789ABCDEFGHIJKLMNOPQRSTUVWXYZ_abcdefghijklmnopqrstuvwxyz'')))
         (Cat (Lit (CHR ''='')) (Cap 2 (Plus digit)))"

text \<open>
  A session whose console transport answers the pump's successive reads with
  the given results, and a caller entering a wait.
\<close>

definition session :: "(bytes \<times> error option) list \<Rightarrow> 's \<Rightarrow> 's sys" where
  "session reads s = \<lparr>shared = newQemu, pumpSt = Pumping [], console = reads, caller = enter s\<rparr>"

text \<open>
  The call after two consecutive steps of \<open>consoleProcess\<close> with no pump step
  in between, as when the pump has returned.
\<close>

definition twoSteps :: "'s LineProcessor \<Rightarrow> 's call \<Rightarrow> qemu \<Rightarrow> 's call" where
  "twoSteps processor c q =
     fst (consoleProcess_step processor (fst (consoleProcess_step processor c q))
            (snd (consoleProcess_step processor c q)))"

text \<open>
  The console delivers \<open>A\<close>, later \<open>B\<close> with a newline, and is closed after that;
  the caller has entered a wait before either chunk.
\<close>

definition twoChunks :: "unit sys" where
  "twoChunks = session [(''A'', None), (''B\<newline>'', None), ([], Some io_EOF)] ()"

text \<open>The caller, whose previous call has returned, enters its next wait.\<close>

definition again :: "'s \<Rightarrow> 's sys \<Rightarrow> 's sys" where
  "again s y = y\<lparr>caller := enter s\<rparr>"

section \<open>Properties\<close>

declare ReplaceAll.simps [simp del] FindAllSubmatch_from.simps [simp del]
  scanLines.simps [simp del] fragments.simps [simp del]

subsection \<open>The escape-sequence filter and the pump\<close>

text \<open>
  A repetition whose body can match the empty string: on \<open>=b\<close> the pattern
  \<^verbatim>\<open>=(a*|b)*\<close> matches \<open>=\<close> with an empty group, the first pass being the empty
  \<^verbatim>\<open>a*\<close>; on \<open>=aab\<close> the later empty pass is dropped and the group is \<open>b\<close>.
\<close>

lemma nullable_repetition:
  "FindAllSubmatch
     (Cat (Lit (CHR ''='')) (Star (Cap 1 (Alt (Star (Lit (CHR ''a''))) (Lit (CHR ''b''))))))
     ''=b'' = [[Some ''='', Some []]]"
  "FindAllSubmatch
     (Cat (Lit (CHR ''='')) (Star (Cap 1 (Alt (Star (Lit (CHR ''a''))) (Lit (CHR ''b''))))))
     ''=aab'' = [[Some ''=aab'', Some ''b'']]"
  by code_simp+

text \<open>
  The inputs and expected outputs of the repository's \<open>TestAnsiEscapeRemoval\<close>,
  run on the model of \<open>ansiRe\<close>.
\<close>

lemma ansiRe_removes_test_sequences:
  "ReplaceAll ansiRe (''drive=hd0\<newline>'' @ [ESC] @ ''[2J'' @ [ESC] @ ''[01;01H'' @ [ESC] @ ''[=3h''
      @ [ESC] @ ''[2J'' @ [ESC] @ ''[01;01HBdsDxe: loading Boot0001'') =
     ''drive=hd0\<newline>BdsDxe: loading Boot0001''"
  "ReplaceAll ansiRe (''hd0\<newline>'' @ [ESC] @ ''c'' @ [ESC] @ ''[?7l'' @ [ESC] @ ''[2J'' @ [ESC]
      @ ''[0mSeaBIOS (version ArchLinux 1.14.0-1)'') =
     ''hd0\<newline>SeaBIOS (version ArchLinux 1.14.0-1)''"
  "ReplaceAll ansiRe (''ok\<newline>'' @ [ESC] @ ''c'' @ [ESC] @ ''[?7l'' @ [ESC] @ ''[2J[    0'') =
     ''ok\<newline>[    0''"
  "ReplaceAll ansiRe (''to '' @ [ESC] @ ''[38;2;23;147;209mArch'') = ''to Arch''"
  "ReplaceAll ansiRe (''['' @ [ESC] @ ''[0;32m  OK  '' @ [ESC] @ ''[0m] Created slice '' @ [ESC]
      @ ''[0;1;39mSlice /system/getty'' @ [ESC] @ ''[0m.'') =
     ''[  OK  ] Created slice Slice /system/getty.''"
  "ReplaceAll ansiRe (''30s)\<newline>'' @ [ESC] @ ''M\<newline>'' @ [ESC] @ ''[K[ ***  ] A start job is r'') =
     ''30s)\<newline>\<newline>[ ***  ] A start job is r''"
  by code_simp+

lemma hasPrefix_single: "hasPrefix b [c] = (b \<noteq> [] \<and> hd b = c)"
  by (cases b) auto

lemma Contains_single: "Contains b [c] = (c \<in> set b)"
  by (induction b) (auto simp: hasPrefix_single)

lemma set_ReplaceAll: "set (ReplaceAll r s) \<subseteq> set s"
proof (induction r s rule: ReplaceAll.induct)
  case (1 r s)
  show ?case
  proof (cases "firstMatch r s")
    case None
    then show ?thesis by (subst ReplaceAll.simps) simp
  next
    case (Some t)
    obtain i l c where t: "t = (i, l, c)" by (cases t)
    show ?thesis
    proof (cases "s = []")
      case True
      then show ?thesis using Some t by (subst ReplaceAll.simps) simp
    next
      case False
      note ne = this
      show ?thesis
      proof (cases "i + l = 0")
        case True
        have "set (ReplaceAll r (tl s)) \<subseteq> set (tl s)"
          using "1.IH"(1)[OF Some, of i "(l, c)" l c] ne True t by simp
        then show ?thesis using Some t ne True
          by (subst ReplaceAll.simps) (cases s; auto)
      next
        case F2: False
        have "set (ReplaceAll r (drop (i + l) s)) \<subseteq> set (drop (i + l) s)"
          using "1.IH"(2)[OF Some, of i "(l, c)" l c] ne F2 t by simp
        then show ?thesis using Some t ne F2
          by (subst ReplaceAll.simps) (auto dest: in_set_takeD in_set_dropD)
      qed
    qed
  qed
qed

lemma escFilter_plain: "ESC \<notin> set toPrint \<Longrightarrow> escFilter toPrint = (toPrint, [])"
  by (simp add: escFilter_def Contains_single)

lemma LastIndexByte_nth: "LastIndexByte b c = Some i \<Longrightarrow> i < length b \<and> b ! i = c"
  by (induction b arbitrary: i) (auto split: option.splits if_splits)

lemma LastIndexByte_None: "LastIndexByte b c = None \<longleftrightarrow> c \<notin> set b"
  by (induction b) (auto split: option.splits)

lemma escFilter_carry:
  assumes "LastIndexByte (ReplaceAll ansiRe toPrint) ESC = Some i"
    and "length (ReplaceAll ansiRe toPrint) - i < asciiSeqMaxLength"
  shows "escFilter toPrint = (take i (ReplaceAll ansiRe toPrint), drop i (ReplaceAll ansiRe toPrint))"
proof -
  have "ESC \<in> set (ReplaceAll ansiRe toPrint)"
    using assms(1) LastIndexByte_None[of "ReplaceAll ansiRe toPrint" ESC] by auto
  then have "ESC \<in> set toPrint" using set_ReplaceAll by blast
  then show ?thesis using assms by (simp add: escFilter_def Contains_single Let_def)
qed

lemma consolePump_iter_data:
  assumes "0 < length data" and "escFilter (carry @ data) = (toPrint, carry')"
  shows "consolePump_iter verbose (data, None) carry q =
           (Pumping carry',
            q\<lparr>stdout := (if verbose then stdout q @ toPrint else stdout q),
              consoleData := consoleData q @ toPrint,
              consoleDataArrived := True\<rparr>)"
  using assms by (simp add: consolePump_iter_def pumpData_def)

lemma consolePump_iter_consoleData:
  assumes "0 < length data"
  shows "consoleData (snd (consolePump_iter verbose (data, err) carry q)) =
           consoleData q @ fst (escFilter (carry @ data))"
  using assms
  by (cases "escFilter (carry @ data)")
     (simp add: consolePump_iter_def pumpData_def split: option.splits error.splits)

text \<open>
  Claim C8.  When the bytes the pump looks at in one iteration, \<open>buf[:dataLength]\<close>
  (the carried tail followed by the bytes just read), contain no escape
  introducer \<open>0x1b\<close>, the escape-sequence filter is the identity and carries
  nothing over: the bytes appended to the line buffer are exactly those bytes,
  unchanged and in order, whatever error the read reported.
\<close>

theorem pump_filter_identity:
  assumes "ESC \<notin> set (carry @ data)" and "0 < length data"
  shows "escFilter (carry @ data) = (carry @ data, []) \<and>
         consoleData (snd (consolePump_iter verbose (data, err) carry q)) =
           consoleData q @ carry @ data"
  using assms by (simp add: consolePump_iter_consoleData escFilter_plain)

theorem pump_filter_identity_witness:
  "ESC \<notin> set ([] @ ''ok'') \<and> 0 < length ''ok'' \<and>
   escFilter ([] @ ''ok'') = ([] @ ''ok'', []) \<and>
   consoleData (snd (consolePump_iter False (''ok'', None) [] newQemu)) =
     consoleData newQemu @ [] @ ''ok''"
proof -
  have h1: "ESC \<notin> set ([] @ ''ok'')" by (simp add: ESC_def)
  have h2: "0 < length ''ok''" by simp
  show ?thesis
    using h1 h2 pump_filter_identity [OF h1 h2, of False None newQemu] by simp
qed

text \<open>
  Claim C6.  In a pump iteration that read data, let the filtered chunk be
  \<open>ansiRe.ReplaceAll\<close> of \<open>buf[:dataLength]\<close>.  If its last escape introducer lies
  fewer than \<open>asciiSeqMaxLength = 30\<close> bytes before its end, then the bytes given to
  the verbose sink and appended to the line buffer are the filtered chunk up to,
  and not including, that introducer; the bytes from the introducer to the end
  become the new \<open>buf[:dataLength]\<close>, and the next iteration that reads data
  filters them followed by the new bytes.
\<close>

theorem pump_carries_incomplete_sequence:
  assumes "0 < length data"
    and "LastIndexByte (ReplaceAll ansiRe (carry @ data)) ESC = Some asciiStart"
    and "length (ReplaceAll ansiRe (carry @ data)) - asciiStart < asciiSeqMaxLength"
    and "0 < length data'"
  shows "consolePump_iter verbose (data, None) carry q =
           (Pumping (drop asciiStart (ReplaceAll ansiRe (carry @ data))),
            q\<lparr>stdout := (if verbose then stdout q @ take asciiStart (ReplaceAll ansiRe (carry @ data))
                          else stdout q),
              consoleData := consoleData q @ take asciiStart (ReplaceAll ansiRe (carry @ data)),
              consoleDataArrived := True\<rparr>) \<and>
         hd (drop asciiStart (ReplaceAll ansiRe (carry @ data))) = ESC \<and>
         consoleData (snd (consolePump_iter verbose (data', err')
             (drop asciiStart (ReplaceAll ansiRe (carry @ data))) q')) =
           consoleData q' @ fst (escFilter (drop asciiStart (ReplaceAll ansiRe (carry @ data)) @ data'))"
proof -
  let ?f = "ReplaceAll ansiRe (carry @ data)"
  have "escFilter (carry @ data) = (take asciiStart ?f, drop asciiStart ?f)"
    using assms(2,3) by (rule escFilter_carry)
  then have a: "consolePump_iter verbose (data, None) carry q =
           (Pumping (drop asciiStart ?f),
            q\<lparr>stdout := (if verbose then stdout q @ take asciiStart ?f else stdout q),
              consoleData := consoleData q @ take asciiStart ?f,
              consoleDataArrived := True\<rparr>)"
    using assms(1) by (rule consolePump_iter_data[rotated])
  have "asciiStart < length ?f \<and> ?f ! asciiStart = ESC"
    using assms(2) by (rule LastIndexByte_nth)
  then have b: "hd (drop asciiStart ?f) = ESC"
    by (simp add: hd_drop_conv_nth)
  show ?thesis using a b consolePump_iter_consoleData[OF assms(4)] by simp
qed

theorem pump_carries_incomplete_sequence_witness:
  "0 < length (''ab'' @ [ESC] @ ''[0'') \<and>
   LastIndexByte (ReplaceAll ansiRe ([] @ ''ab'' @ [ESC] @ ''[0'')) ESC = Some 2 \<and>
   length (ReplaceAll ansiRe ([] @ ''ab'' @ [ESC] @ ''[0'')) - 2 < asciiSeqMaxLength \<and>
   0 < length ''mcd'' \<and>
   consolePump_iter True (''ab'' @ [ESC] @ ''[0'', None) [] newQemu =
     (Pumping ([ESC] @ ''[0''),
      newQemu\<lparr>stdout := ''ab'', consoleData := ''ab'', consoleDataArrived := True\<rparr>) \<and>
   consoleData (snd (consolePump_iter True (''mcd'', None) ([ESC] @ ''[0'')
      (newQemu\<lparr>consoleData := ''ab''\<rparr>))) = ''abcd''"
proof -
  have r: "ReplaceAll ansiRe ([] @ ''ab'' @ [ESC] @ ''[0'') = ''ab'' @ [ESC] @ ''[0''"
    by code_simp
  have h1: "0 < length (''ab'' @ [ESC] @ ''[0'')" by simp
  have h2: "LastIndexByte (ReplaceAll ansiRe ([] @ ''ab'' @ [ESC] @ ''[0'')) ESC = Some 2"
    unfolding r by (simp add: ESC_def)
  have h3: "length (ReplaceAll ansiRe ([] @ ''ab'' @ [ESC] @ ''[0'')) - 2 < asciiSeqMaxLength"
    unfolding r by (simp add: asciiSeqMaxLength_def)
  have h4: "0 < length ''mcd''" by simp
  have e: "fst (escFilter (([ESC] @ ''[0'') @ ''mcd'')) = ''cd''"
    by code_simp
  have c: "consolePump_iter True (''ab'' @ [ESC] @ ''[0'', None) [] newQemu =
     (Pumping ([ESC] @ ''[0''),
      newQemu\<lparr>stdout := ''ab'', consoleData := ''ab'', consoleDataArrived := True\<rparr>)"
    and d: "consoleData (snd (consolePump_iter True (''mcd'', None) ([ESC] @ ''[0'')
      (newQemu\<lparr>consoleData := ''ab''\<rparr>))) = ''abcd''"
    using pump_carries_incomplete_sequence [OF h1 h2 h3 h4, of True newQemu None
        "newQemu\<lparr>consoleData := ''ab''\<rparr>"] e
    unfolding r by (simp_all add: newQemu_def)
  show ?thesis using h1 h2 h3 h4 c d by (intro conjI)
qed

subsection \<open>The inner loop of the matcher\<close>

lemma fragments_nonempty: "fragments b \<noteq> []"
  by (subst fragments.simps) (simp split: option.splits)

lemma fragments_None: "IndexByte b NL = None \<Longrightarrow> fragments b = [b]"
  by (subst fragments.simps) simp

lemma fragments_Some:
  "IndexByte b NL = Some idx \<Longrightarrow> fragments b = take (Suc idx) b # fragments (drop (Suc idx) b)"
  by (subst fragments.simps) simp

lemma concat_fragments: "concat (fragments b) = b"
proof (induction b rule: fragments.induct)
  case (1 buf)
  show ?case
  proof (cases "IndexByte buf NL")
    case None
    then show ?thesis by (simp add: fragments_None)
  next
    case (Some idx)
    then show ?thesis using "1.IH"[OF Some] by (simp add: fragments_Some)
  qed
qed

lemma last_fragments_no_newline: "IndexByte (last (fragments b)) NL = None"
proof (induction b rule: fragments.induct)
  case (1 buf)
  show ?case
  proof (cases "IndexByte buf NL")
    case None
    then show ?thesis by (simp add: fragments_None)
  next
    case (Some idx)
    then show ?thesis using "1.IH"[OF Some] by (simp add: fragments_Some fragments_nonempty)
  qed
qed

lemma scanLines_None:
  "IndexByte buf NL = None \<Longrightarrow>
   scanLines p buf s =
     (case p buf s of None \<Rightarrow> None | Some (m, s') \<Rightarrow> Some (m, buf, s'))"
  by (subst scanLines.simps) simp

lemma scanLines_Some:
  "IndexByte buf NL = Some idx \<Longrightarrow>
   scanLines p buf s =
     (case p (take (Suc idx) buf) s of
        None \<Rightarrow> None
      | Some (m, s') \<Rightarrow>
          if m then Some (True, drop (Suc idx) buf, s')
          else scanLines p (drop (Suc idx) buf) s')"
  by (subst scanLines.simps) (simp add: Let_def)

lemma scanLines_scanFrags:
  "scanLines p b s =
     map_option (\<lambda>(m, later, s'). (m, leftInBuf (fragments b) later, s'))
       (scanFrags p (fragments b) s)"
proof (induction p b s rule: scanLines.induct)
  case (1 p buf s)
  show ?case
  proof (cases "IndexByte buf NL")
    case None
    then show ?thesis
      by (auto simp: scanLines_None fragments_None leftInBuf_def split: option.splits)
  next
    case (Some idx)
    let ?f = "take (Suc idx) buf" and ?b = "drop (Suc idx) buf"
    have ne: "fragments ?b \<noteq> []" by (rule fragments_nonempty)
    have fr: "fragments buf = ?f # fragments ?b" using Some by (rule fragments_Some)
    show ?thesis
    proof (cases "p ?f s")
      case None
      then show ?thesis using Some fr by (simp add: scanLines_Some)
    next
      case ms: (Some ms)
      obtain m s' where m: "ms = (m, s')" by (cases ms)
      show ?thesis
      proof (cases m)
        case True
        then show ?thesis using Some ms m fr ne
          by (simp add: scanLines_Some leftInBuf_def concat_fragments)
      next
        case False
        have ih: "scanLines p ?b s' =
            map_option (\<lambda>(m, later, s'). (m, leftInBuf (fragments ?b) later, s'))
              (scanFrags p (fragments ?b) s')"
          using "1.IH"[OF Some refl refl ms[unfolded m]] False by simp
        have l: "leftInBuf (?f # fragments ?b) later = leftInBuf (fragments ?b) later" for later
          using ne by (simp add: leftInBuf_def)
        show ?thesis using Some ms m fr False ih
          by (simp add: scanLines_Some l)
      qed
    qed
  qed
qed

lemma scanFrags_matched:
  "scanFrags p fs s = Some (True, later, s') \<Longrightarrow>
   \<exists>k s1. k < length fs \<and> scanFrags p (take k fs) s = Some (False, [], s1) \<and>
          p (fs ! k) s1 = Some (True, s') \<and> later = drop (Suc k) fs"
proof (induction fs arbitrary: s)
  case Nil
  then show ?case by simp
next
  case (Cons f fs)
  from Cons.prems obtain m s0 where pf: "p f s = Some (m, s0)"
    by (auto split: option.splits)
  show ?case
  proof (cases m)
    case True
    then have "later = fs" "s' = s0" using Cons.prems pf by auto
    then show ?thesis using pf True by (intro exI[of _ 0] exI[of _ s]) simp
  next
    case False
    then have "scanFrags p fs s0 = Some (True, later, s')" using Cons.prems pf by simp
    then obtain k s1 where k: "k < length fs" "scanFrags p (take k fs) s0 = Some (False, [], s1)"
        "p (fs ! k) s1 = Some (True, s')" "later = drop (Suc k) fs"
      using Cons.IH by blast
    then show ?thesis using pf False by (intro exI[of _ "Suc k"] exI[of _ s1]) simp
  qed
qed

lemma scanLines_suffix:
  "scanLines p b s = Some (m, rest, s') \<Longrightarrow> \<exists>pre. b = pre @ rest"
proof (induction p b s rule: scanLines.induct)
  case (1 p buf s)
  show ?case
  proof (cases "IndexByte buf NL")
    case None
    then have "rest = buf" using "1.prems"
      by (auto simp: scanLines_None split: option.splits)
    then show ?thesis by simp
  next
    case (Some idx)
    let ?f = "take (Suc idx) buf" and ?b = "drop (Suc idx) buf"
    from "1.prems" Some obtain mm s1 where p: "p ?f s = Some (mm, s1)"
      by (auto simp: scanLines_Some split: option.splits)
    show ?thesis
    proof (cases mm)
      case True
      then have "rest = ?b" using "1.prems" Some p
        by (auto simp: scanLines_Some)
      then have "buf = ?f @ rest" by simp
      then show ?thesis by blast
    next
      case False
      then have "scanLines p ?b s1 = Some (m, rest, s')" using "1.prems" Some p
        by (auto simp: scanLines_Some)
      then obtain pre where "?b = pre @ rest"
        using "1.IH"[OF Some refl refl p _ ] False by auto
      then have "buf = (?f @ pre) @ rest"
        by (metis append.assoc append_take_drop_id)
      then show ?thesis by blast
    qed
  qed
qed

subsection \<open>Pump and matcher, step by step\<close>

lemma run_append: "run v p (ts @ us) y = run v p us (run v p ts y)"
  by (induction ts arbitrary: y) (auto, metis (full_types) run.simps(2,3) task.exhaust)

lemma caller_pump_step: "caller (pump_step v y) = caller y"
  by (auto simp: pump_step_def split: pump.splits list.splits prod.splits)

lemma caller_run_P: "caller (run v p (replicate k P) y) = caller y"
  by (induction k arbitrary: y) (simp_all add: caller_pump_step)

text \<open>
  Claim C3.  A call of \<open>consoleProcess\<close> that stands at the head of its polling
  loop (no fragment has matched yet) and finds the stream-ended flag set and
  the data-arrived flag clear returns \<open>io.EOF\<close> in that very iteration, for every
  processor; so \<open>ConsoleExpect\<close> returns \<open>io.EOF\<close> and \<open>ConsoleExpectRE\<close> returns
  nil matches with \<open>io.EOF\<close>.
\<close>

theorem wait_reports_end_of_stream:
  assumes "consoleDataEOF q" and "\<not> consoleDataArrived q"
  shows "consoleProcess_step processor (AtLoop buf s) q =
           (Returned (Some io_EOF) s, q\<lparr>consoleData := [], consoleDataArrived := False\<rparr>) \<and>
         ConsoleExpect_result (fst (consoleProcess_step (ConsoleExpect_p str) (AtLoop buf ()) q)) =
           Some (Some io_EOF) \<and>
         ConsoleExpectRE_result (fst (consoleProcess_step (ConsoleExpectRE_p re) (AtLoop buf matches) q)) =
           Some (Inl io_EOF)"
  using assms
  by (simp add: consoleProcess_step_def drain_def ConsoleExpect_result_def ConsoleExpectRE_result_def)

theorem wait_reports_end_of_stream_witness:
  "consoleDataEOF (newQemu\<lparr>consoleDataEOF := True\<rparr>) \<and>
   \<not> consoleDataArrived (newQemu\<lparr>consoleDataEOF := True\<rparr>) \<and>
   consoleProcess_step (ConsoleExpect_p ''login'') (AtLoop ''log'' ()) (newQemu\<lparr>consoleDataEOF := True\<rparr>) =
     (Returned (Some io_EOF) (),
      newQemu\<lparr>consoleDataEOF := True, consoleData := [], consoleDataArrived := False\<rparr>) \<and>
   ConsoleExpect_result (fst (consoleProcess_step (ConsoleExpect_p ''login'') (AtLoop ''log'' ())
       (newQemu\<lparr>consoleDataEOF := True\<rparr>))) = Some (Some io_EOF) \<and>
   ConsoleExpectRE_result (fst (consoleProcess_step (ConsoleExpectRE_p exitCodeRe) (AtLoop ''log'' [])
       (newQemu\<lparr>consoleDataEOF := True\<rparr>))) = Some (Inl io_EOF)"
proof -
  have h1: "consoleDataEOF (newQemu\<lparr>consoleDataEOF := True\<rparr>)" by simp
  have h2: "\<not> consoleDataArrived (newQemu\<lparr>consoleDataEOF := True\<rparr>)"
    by (simp add: newQemu_def)
  show ?thesis
    using h1 h2
      wait_reports_end_of_stream [OF h1 h2, of "ConsoleExpect_p ''login''" "''log''" "()"
        "''login''" exitCodeRe "[]"]
    by blast
qed

text \<open>
  Claim C9.  When the first match of the scan is on the last fragment, the
  one without terminator (whether or not lines precede it in the same drain),
  the local buffer of \<open>consoleProcess\<close> still holds exactly that fragment: the
  matched bytes are put back at the front of the line buffer, and the next
  call drains them again and applies its processor to the same bytes.  When
  the match is on a newline-terminated fragment, the bytes put back are the
  ones behind that fragment.  In general the inner loop leaves what
  \<open>leftInBuf\<close> says.
\<close>

theorem match_on_unterminated_fragment_is_requeued:
  assumes "consoleDataArrived q"
    and "scanFrags processor (fragments (buf @ consoleData q)) s = Some (True, [], s')"
  shows "IndexByte (last (fragments (buf @ consoleData q))) NL = None \<and>
         consoleProcess_step processor (AtLoop buf s) q =
           (Matched (last (fragments (buf @ consoleData q))) s',
            q\<lparr>consoleData := [], consoleDataArrived := False\<rparr>) \<and>
         consoleProcess_step processor (Matched (last (fragments (buf @ consoleData q))) s') q2 =
           (Returned None s',
            q2\<lparr>consoleData := last (fragments (buf @ consoleData q)) @ consoleData q2,
               consoleDataArrived := True\<rparr>) \<and>
         consoleProcess_step processor (enter s2)
             (snd (consoleProcess_step processor (Matched (last (fragments (buf @ consoleData q))) s')
                (q\<lparr>consoleData := [], consoleDataArrived := False\<rparr>))) =
           (case processor (last (fragments (buf @ consoleData q))) s2 of
              None \<Rightarrow> Panicked
            | Some (m, s3) \<Rightarrow>
                if m then Matched (last (fragments (buf @ consoleData q))) s3
                else AtLoop (last (fragments (buf @ consoleData q))) s3,
            q\<lparr>consoleData := [], consoleDataArrived := False\<rparr>) \<and>
         (scanFrags processor (fragments b) s0 = Some (True, later, s1) \<and> later \<noteq> [] \<longrightarrow>
            scanLines processor b s0 = Some (True, concat later, s1)) \<and>
         scanLines processor b s0 =
           map_option (\<lambda>(m, later, s'). (m, leftInBuf (fragments b) later, s'))
             (scanFrags processor (fragments b) s0)"
proof -
  let ?b = "buf @ consoleData q"
  let ?frag = "last (fragments ?b)"
  let ?q0 = "q\<lparr>consoleData := [], consoleDataArrived := False\<rparr>"
  have nl: "IndexByte ?frag NL = None" by (rule last_fragments_no_newline)
  have sc: "scanLines processor ?b s = Some (True, ?frag, s')"
    using assms(2) by (simp add: scanLines_scanFrags leftInBuf_def)
  have 1: "consoleProcess_step processor (AtLoop buf s) q = (Matched ?frag s', ?q0)"
    using assms(1) sc by (simp add: consoleProcess_step_def drain_def)
  have 2: "consoleProcess_step processor (Matched ?frag s') q2 =
           (Returned None s', q2\<lparr>consoleData := ?frag @ consoleData q2, consoleDataArrived := True\<rparr>)"
    by (simp add: consoleProcess_step_def requeue_def)
  have 3: "consoleProcess_step processor (enter s2)
             (snd (consoleProcess_step processor (Matched ?frag s') ?q0)) =
           (case processor ?frag s2 of
              None \<Rightarrow> Panicked
            | Some (m, s3) \<Rightarrow> if m then Matched ?frag s3 else AtLoop ?frag s3,
            ?q0)"
    using nl
    by (simp add: consoleProcess_step_def requeue_def drain_def enter_def scanLines_None
             split: option.splits)
  have 4: "scanFrags processor (fragments b) s0 = Some (True, later, s1) \<and> later \<noteq> [] \<longrightarrow>
            scanLines processor b s0 = Some (True, concat later, s1)"
    by (simp add: scanLines_scanFrags leftInBuf_def)
  show ?thesis using nl 1 2 3 4 scanLines_scanFrags[of processor b s0] by (intro conjI)
qed

theorem match_on_unterminated_fragment_is_requeued_witness:
  "consoleDataArrived (newQemu\<lparr>consoleData := ''boot\<newline>login: '', consoleDataArrived := True\<rparr>) \<and>
   scanFrags (ConsoleExpect_p ''login'')
     (fragments ([] @ consoleData
        (newQemu\<lparr>consoleData := ''boot\<newline>login: '', consoleDataArrived := True\<rparr>))) () =
     Some (True, [], ()) \<and>
   scanFrags (ConsoleExpect_p ''login'') (fragments ''boot\<newline>login\<newline>$ '') () =
     Some (True, [''$ ''], ()) \<and>
   [''$ ''] \<noteq> [] \<and>
   consoleProcess_step (ConsoleExpect_p ''login'') (AtLoop [] ())
       (newQemu\<lparr>consoleData := ''boot\<newline>login: '', consoleDataArrived := True\<rparr>) =
     (Matched ''login: '' (), newQemu) \<and>
   consoleProcess_step (ConsoleExpect_p ''login'') (Matched ''login: '' ())
       (newQemu\<lparr>consoleData := ''more''\<rparr>) =
     (Returned None (), newQemu\<lparr>consoleData := ''login: more'', consoleDataArrived := True\<rparr>) \<and>
   consoleProcess_step (ConsoleExpect_p ''login'') (enter ())
       (snd (consoleProcess_step (ConsoleExpect_p ''login'') (Matched ''login: '' ()) newQemu)) =
     (Matched ''login: '' (), newQemu) \<and>
   scanLines (ConsoleExpect_p ''login'') ''boot\<newline>login\<newline>$ '' () = Some (True, ''$ '', ())"
proof -
  let ?q = "newQemu\<lparr>consoleData := ''boot\<newline>login: '', consoleDataArrived := True\<rparr>"
  let ?p = "ConsoleExpect_p ''login''"
  have h1: "consoleDataArrived ?q" by simp
  have h2: "scanFrags ?p (fragments ([] @ consoleData ?q)) () = Some (True, [], ())"
    by code_simp
  have h3: "scanFrags ?p (fragments ''boot\<newline>login\<newline>$ '') () = Some (True, [''$ ''], ())"
    by code_simp
  have h4: "[''$ ''] \<noteq> ([] :: bytes list)" by simp
  have q0: "?q\<lparr>consoleData := [], consoleDataArrived := False\<rparr> = newQemu"
    by (simp add: newQemu_def)
  have l: "last (fragments ([] @ consoleData ?q)) = ''login: ''" by code_simp
  have p: "?p ''login: '' () = Some (True, ())" by code_simp
  note w = match_on_unterminated_fragment_is_requeued [
        where processor = ?p and buf = "[]" and q = ?q and s = "()" and s' = "()"
          and ?q2.0 = "newQemu\<lparr>consoleData := ''more''\<rparr>" and ?s2.0 = "()"
          and b = "''boot\<newline>login\<newline>$ ''" and later = "[''$ '']" and ?s0.0 = "()"
          and ?s1.0 = "()", OF h1 h2, unfolded l q0]
  have 1: "consoleProcess_step ?p (AtLoop [] ()) ?q = (Matched ''login: '' (), newQemu)"
    using w by blast
  have 2: "consoleProcess_step ?p (Matched ''login: '' ()) (newQemu\<lparr>consoleData := ''more''\<rparr>) =
     (Returned None (), newQemu\<lparr>consoleData := ''login: more'', consoleDataArrived := True\<rparr>)"
    using w by (simp add: newQemu_def)
  have 3: "consoleProcess_step ?p (enter ())
       (snd (consoleProcess_step ?p (Matched ''login: '' ()) newQemu)) =
     (Matched ''login: '' (), newQemu)"
    using w p by simp
  have 4: "scanLines ?p ''boot\<newline>login\<newline>$ '' () = Some (True, ''$ '', ())"
    using w h3 h4 by simp
  show ?thesis using h1 h2 h3 h4 1 2 3 4 by (intro conjI)
qed

lemma run_M_fix: "matcher_step p y = y \<Longrightarrow> run v p (replicate n M) y = y"
  by (induction n) simp_all

lemma consolePump_iter_eof:
  "fst (consolePump_iter verbose (data, Some io_EOF) carry q) = PumpExited \<and>
   consoleDataEOF (snd (consolePump_iter verbose (data, Some io_EOF) carry q))"
  by (simp add: consolePump_iter_def split: prod.splits)

lemma consolePump_iter_err:
  "fst (consolePump_iter verbose (data, Some (Err msg)) carry q) = PumpExited \<and>
   consoleDataEOF (snd (consolePump_iter verbose (data, Some (Err msg)) carry q)) = consoleDataEOF q \<and>
   logged (snd (consolePump_iter verbose (data, Some (Err msg)) carry q)) = logged q @ [msg]"
  by (simp add: consolePump_iter_def pumpData_def split: prod.splits)

lemma twoSteps_after_eof:
  assumes "consoleDataEOF q"
  shows "(\<exists>e t. twoSteps p (AtLoop buf s) q = Returned e t) \<or> twoSteps p (AtLoop buf s) q = Panicked"
  using assms
  by (auto simp: twoSteps_def consoleProcess_step_def drain_def requeue_def
           split: option.splits prod.splits)

lemma eof_without_data_returns:
  assumes "\<not> consoleDataArrived q"
  shows "fst (consoleProcess_step p (AtLoop buf s)
               (snd (consolePump_iter verbose ([], Some io_EOF) carry q))) =
           Returned (Some io_EOF) s"
  using assms by (simp add: consolePump_iter_def consoleProcess_step_def drain_def)

text \<open>
  Claim C2 fails for read errors other than \<open>io.EOF\<close>: the pump's read fails
  with another error while a wait is parked.  The pump has returned, the
  stream-ended flag is still clear, and the wait goes on polling.
\<close>

theorem pump_read_error_leaves_stream_open:
  "pumpSt (run False (ConsoleExpect_p ''x'') [P]
      (session [([], Some (Err ''connection reset by peer''))] ())) = PumpExited \<and>
   \<not> consoleDataEOF (shared (run False (ConsoleExpect_p ''x'') [P]
      (session [([], Some (Err ''connection reset by peer''))] ()))) \<and>
   caller (run False (ConsoleExpect_p ''x'') [P, M, M, M]
      (session [([], Some (Err ''connection reset by peer''))] ())) = AtLoop [] ()"
  by (simp add: session_def newQemu_def enter_def pump_step_def consolePump_iter_def
        matcher_step_def consoleProcess_step_def drain_def)

text \<open>After such an error the parked wait polls on, however often it is scheduled.\<close>

lemma parked_wait_polls_on_after_read_error:
  "caller (run verbose processor (P # replicate n M) (session [([], Some (Err msg))] s)) = AtLoop [] s"
proof -
  let ?y = "pump_step verbose (session [([], Some (Err msg))] s)"
  have "matcher_step processor ?y = ?y"
    by (simp add: session_def newQemu_def enter_def pump_step_def consolePump_iter_def
        matcher_step_def consoleProcess_step_def drain_def)
  then have "run verbose processor (replicate n M) ?y = ?y" by (rule run_M_fix)
  moreover have "caller ?y = AtLoop [] s"
    by (simp add: session_def enter_def pump_step_def consolePump_iter_def)
  ultimately show ?thesis by simp
qed

text \<open>
  Claim C2, amended.  When the read that ends the pump returned \<open>io.EOF\<close>, the
  stream-ended flag is set when the pump has returned.  A wait parked at that
  point returns \<open>io.EOF\<close> on its next poll if that read brought no data and none
  had arrived before; in every case it has left its polling loop after two
  polls.  When the read failed with any other error, the pump logs the
  error and returns with the flag as it was.
\<close>

theorem pump_eof_ends_stream:
  "fst (consolePump_iter verbose (data, Some io_EOF) carry q) = PumpExited \<and>
   consoleDataEOF (snd (consolePump_iter verbose (data, Some io_EOF) carry q)) \<and>
   (\<not> consoleDataArrived q \<longrightarrow>
      fst (consoleProcess_step processor (AtLoop buf s)
            (snd (consolePump_iter verbose ([], Some io_EOF) carry q))) =
        Returned (Some io_EOF) s) \<and>
   ((\<exists>e t. twoSteps processor (AtLoop buf s)
              (snd (consolePump_iter verbose (data, Some io_EOF) carry q)) = Returned e t) \<or>
    twoSteps processor (AtLoop buf s)
       (snd (consolePump_iter verbose (data, Some io_EOF) carry q)) = Panicked) \<and>
   fst (consolePump_iter verbose (data, Some (Err msg)) carry q) = PumpExited \<and>
   consoleDataEOF (snd (consolePump_iter verbose (data, Some (Err msg)) carry q)) =
     consoleDataEOF q \<and>
   logged (snd (consolePump_iter verbose (data, Some (Err msg)) carry q)) = logged q @ [msg]"
  using consolePump_iter_eof[of verbose data carry q]
    consolePump_iter_err[of verbose data msg carry q]
    eof_without_data_returns[of q processor buf s verbose carry]
    twoSteps_after_eof[of "snd (consolePump_iter verbose (data, Some io_EOF) carry q)" processor buf s]
  by blast

theorem pump_eof_ends_stream_witness:
  "\<not> consoleDataArrived newQemu \<and>
   fst (consolePump_iter False (''cd'', Some io_EOF) [] newQemu) = PumpExited \<and>
   consoleDataEOF (snd (consolePump_iter False (''cd'', Some io_EOF) [] newQemu)) \<and>
   fst (consoleProcess_step (ConsoleExpect_p ''x'') (AtLoop ''ab'' ())
          (snd (consolePump_iter False ([], Some io_EOF) [] newQemu))) =
     Returned (Some io_EOF) () \<and>
   twoSteps (ConsoleExpect_p ''x'') (AtLoop ''ab'' ())
      (snd (consolePump_iter False (''cd'', Some io_EOF) [] newQemu)) =
     Returned (Some io_EOF) () \<and>
   consoleDataEOF (snd (consolePump_iter False (''cd'', Some (Err ''reset'')) [] newQemu)) =
     consoleDataEOF newQemu"
proof -
  have h: "\<not> consoleDataArrived newQemu" by (simp add: newQemu_def)
  have t: "twoSteps (ConsoleExpect_p ''x'') (AtLoop ''ab'' ())
      (snd (consolePump_iter False (''cd'', Some io_EOF) [] newQemu)) =
     Returned (Some io_EOF) ()"
    by code_simp
  show ?thesis
    using h t
      pump_eof_ends_stream [of False "''cd''" "[]" newQemu "ConsoleExpect_p ''x''" "''ab''" "()"
        "''reset''"]
    by blast
qed

lemma matcher_step_Matched:
  "caller y = Matched rest s \<Longrightarrow>
   matcher_step p y = y\<lparr>shared := requeue rest (shared y), caller := Returned None s\<rparr>"
  by (simp add: matcher_step_def consoleProcess_step_def)

lemma matcher_step_scan:
  assumes "caller y = AtLoop buf s" and "consoleDataArrived (shared y)"
    and "scanLines p (buf @ consoleData (shared y)) s = Some (True, rest, s')"
  shows "matcher_step p y =
           y\<lparr>shared := (shared y)\<lparr>consoleData := [], consoleDataArrived := False\<rparr>,
             caller := Matched rest s'\<rparr>"
  using assms by (simp add: matcher_step_def consoleProcess_step_def drain_def)

text \<open>
  Claim C4 fails when the match is on the fragment without terminator: the
  console delivers the prompt \<open>login: \<close> and \<open>ConsoleExpect("login")\<close> matches it.
  The scan leaves no fragment unexamined, so there are no not-yet-examined
  bytes, and yet the line buffer holds the whole examined prompt after the
  call has returned.
\<close>

theorem requeue_puts_back_examined_prompt:
  "scanFrags (ConsoleExpect_p ''login'') (fragments ''login: '') () = Some (True, [], ()) \<and>
   caller (run False (ConsoleExpect_p ''login'') [P, M, M] (session [(''login: '', None)] ())) =
     Returned None () \<and>
   consoleData (shared (run False (ConsoleExpect_p ''login'') [P, M, M]
     (session [(''login: '', None)] ()))) = ''login: '' \<and>
   consoleData (shared (run False (ConsoleExpect_p ''login'') [P, M, M]
     (session [(''login: '', None)] ()))) \<noteq> concat ([] :: bytes list)"
  by code_simp

text \<open>
  Claim C4, amended.  The fragments of the drained bytes, concatenated in
  order, are the drained bytes, and the inner loop applies the processor to
  them in that order: when its first match is on fragment \<open>k\<close>, the fragments
  before \<open>k\<close> were examined without a match and \<open>later\<close> are the fragments behind
  \<open>k\<close>.  What is put back is \<open>leftInBuf\<close>: the not-yet-examined bytes
  \<open>concat later\<close> when the matching fragment is newline-terminated, and the
  matched fragment itself when it is the last one, without terminator.  This
  is a suffix of the drained bytes.  Whatever the pump does between the two
  locked sections, the line buffer afterwards is that suffix followed by the
  bytes the pump appended meanwhile, and this is what the first drain of the
  next call yields.
\<close>

theorem requeue_preserves_order:
  assumes "caller y = AtLoop buf s"
    and "consoleDataArrived (shared y)"
    and "scanFrags processor (fragments (buf @ consoleData (shared y))) s = Some (True, later, s')"
  shows "concat (fragments (buf @ consoleData (shared y))) = buf @ consoleData (shared y) \<and>
         (\<exists>k s1. k < length (fragments (buf @ consoleData (shared y))) \<and>
            scanFrags processor (take k (fragments (buf @ consoleData (shared y)))) s =
              Some (False, [], s1) \<and>
            processor (fragments (buf @ consoleData (shared y)) ! k) s1 = Some (True, s') \<and>
            later = drop (Suc k) (fragments (buf @ consoleData (shared y)))) \<and>
         leftInBuf (fragments (buf @ consoleData (shared y))) later =
           (if later = [] then last (fragments (buf @ consoleData (shared y))) else concat later) \<and>
         (\<exists>examined. buf @ consoleData (shared y) =
            examined @ leftInBuf (fragments (buf @ consoleData (shared y))) later) \<and>
         caller (matcher_step processor y) =
           Matched (leftInBuf (fragments (buf @ consoleData (shared y))) later) s' \<and>
         consoleData (shared (matcher_step processor y)) = [] \<and>
         caller (matcher_step processor
                   (run verbose processor (replicate k P) (matcher_step processor y))) =
           Returned None s' \<and>
         consoleData (shared (matcher_step processor
                   (run verbose processor (replicate k P) (matcher_step processor y)))) =
           leftInBuf (fragments (buf @ consoleData (shared y))) later @
           consoleData (shared (run verbose processor (replicate k P) (matcher_step processor y))) \<and>
         fst (fst (drain [] (shared (matcher_step processor
                   (run verbose processor (replicate k P) (matcher_step processor y)))))) =
           leftInBuf (fragments (buf @ consoleData (shared y))) later @
           consoleData (shared (run verbose processor (replicate k P) (matcher_step processor y)))"
proof -
  let ?b = "buf @ consoleData (shared y)"
  let ?rest = "leftInBuf (fragments ?b) later"
  let ?y1 = "matcher_step processor y"
  let ?y2 = "run verbose processor (replicate k P) ?y1"
  have sc: "scanLines processor ?b s = Some (True, ?rest, s')"
    using assms(3) by (simp add: scanLines_scanFrags)
  have y1: "?y1 = y\<lparr>shared := (shared y)\<lparr>consoleData := [], consoleDataArrived := False\<rparr>,
                      caller := Matched ?rest s'\<rparr>"
    using assms(1,2) sc by (rule matcher_step_scan)
  have c1: "caller ?y1 = Matched ?rest s'" and d1: "consoleData (shared ?y1) = []"
    by (simp_all add: y1)
  have c2: "caller ?y2 = Matched ?rest s'"
    using c1 by (simp add: caller_run_P)
  have y3: "matcher_step processor ?y2 =
              ?y2\<lparr>shared := requeue ?rest (shared ?y2), caller := Returned None s'\<rparr>"
    using c2 by (rule matcher_step_Matched)
  have c3: "caller (matcher_step processor ?y2) = Returned None s'"
    and d3: "consoleData (shared (matcher_step processor ?y2)) = ?rest @ consoleData (shared ?y2)"
    by (simp_all add: y3 requeue_def)
  have e3: "fst (fst (drain [] (shared (matcher_step processor ?y2)))) =
              ?rest @ consoleData (shared ?y2)"
    by (simp add: drain_def d3)
  have sfx: "\<exists>examined. ?b = examined @ ?rest"
    using sc by (rule scanLines_suffix)
  have ord: "\<exists>k s1. k < length (fragments ?b) \<and>
            scanFrags processor (take k (fragments ?b)) s = Some (False, [], s1) \<and>
            processor (fragments ?b ! k) s1 = Some (True, s') \<and>
            later = drop (Suc k) (fragments ?b)"
    using assms(3) by (rule scanFrags_matched)
  have lf: "?rest = (if later = [] then last (fragments ?b) else concat later)"
    by (simp add: leftInBuf_def)
  show ?thesis
    using concat_fragments[of ?b] ord lf sfx c1 d1 c3 d3 e3
    by (intro conjI)
qed

theorem requeue_preserves_order_witness:
  "caller (pump_step False (session [(''one\<newline>two\<newline>'', None), (''three'', None)] ())) =
     AtLoop [] () \<and>
   consoleDataArrived (shared (pump_step False
     (session [(''one\<newline>two\<newline>'', None), (''three'', None)] ()))) \<and>
   scanFrags (ConsoleExpect_p ''one'')
     (fragments ([] @ consoleData (shared (pump_step False
        (session [(''one\<newline>two\<newline>'', None), (''three'', None)] ()))))) () =
     Some (True, [''two\<newline>'', []], ()) \<and>
   consoleData (shared (run False (ConsoleExpect_p ''one'') [P, M, P, M]
     (session [(''one\<newline>two\<newline>'', None), (''three'', None)] ()))) =
     ''two\<newline>three''"
proof -
  let ?init = "session [(''one\<newline>two\<newline>'', None), (''three'', None)] ()"
  let ?y = "pump_step False ?init"
  let ?p = "ConsoleExpect_p ''one''"
  have h1: "caller ?y = AtLoop [] ()" by code_simp
  have h2: "consoleDataArrived (shared ?y)" by code_simp
  have h3: "scanFrags ?p (fragments ([] @ consoleData (shared ?y))) () =
              Some (True, [''two\<newline>'', []], ())"
    by code_simp
  have l: "leftInBuf (fragments ([] @ consoleData (shared ?y))) [''two\<newline>'', []] = ''two\<newline>''"
    by code_simp
  have y2: "consoleData (shared (run False ?p (replicate 1 P) (matcher_step ?p ?y))) = ''three''"
    by code_simp
  have r: "run False ?p [P, M, P, M] ?init =
             matcher_step ?p (run False ?p (replicate 1 P) (matcher_step ?p ?y))"
    by simp
  have "consoleData (shared (matcher_step ?p (run False ?p (replicate 1 P) (matcher_step ?p ?y)))) =
          leftInBuf (fragments ([] @ consoleData (shared ?y))) [''two\<newline>'', []] @
          consoleData (shared (run False ?p (replicate 1 P) (matcher_step ?p ?y)))"
    using requeue_preserves_order [where processor = ?p and y = ?y and buf = "[]" and s = "()"
        and later = "[''two\<newline>'', []]" and s' = "()" and verbose = False and k = 1,
        OF h1 h2 h3]
    by blast
  then have "consoleData (shared (run False ?p [P, M, P, M] ?init)) = ''two\<newline>three''"
    unfolding r y2 l by simp
  then show ?thesis using h1 h2 h3 by blast
qed

subsection \<open>A literal wait across two chunks\<close>

lemma bool_both: "Q True \<Longrightarrow> Q False \<Longrightarrow> Q v"
  by (cases v) simp_all

lemma ab_phase1: "run v (ConsoleExpect_p ''AB'') (replicate a M) twoChunks = twoChunks"
  by (rule run_M_fix) code_simp

lemma ab_phase2:
  "run v (ConsoleExpect_p ''AB'') (replicate b M) (pump_step v twoChunks) =
     (if b = 0 then pump_step v twoChunks
      else matcher_step (ConsoleExpect_p ''AB'') (pump_step v twoChunks))"
proof (cases b)
  case 0
  then show ?thesis by simp
next
  case (Suc n)
  have "matcher_step (ConsoleExpect_p ''AB'') (matcher_step (ConsoleExpect_p ''AB'') (pump_step v twoChunks)) =
        matcher_step (ConsoleExpect_p ''AB'') (pump_step v twoChunks)"
    by (rule bool_both[of _ v]) code_simp+
  then show ?thesis using Suc by (simp add: run_M_fix)
qed

lemma ab_phase3:
  "matcher_step (ConsoleExpect_p ''AB'')
     (pump_step v (matcher_step (ConsoleExpect_p ''AB'') (pump_step v twoChunks))) =
   matcher_step (ConsoleExpect_p ''AB'') (pump_step v (pump_step v twoChunks))"
  by (rule bool_both[of _ v]) code_simp+

lemma ab_phase4:
  "matcher_step (ConsoleExpect_p ''AB'') (matcher_step (ConsoleExpect_p ''AB'')
     (matcher_step (ConsoleExpect_p ''AB'') (pump_step v (pump_step v twoChunks)))) =
   matcher_step (ConsoleExpect_p ''AB'')
     (matcher_step (ConsoleExpect_p ''AB'') (pump_step v (pump_step v twoChunks)))"
  by (rule bool_both[of _ v]) code_simp+

lemma ab_first_wait:
  "run v (ConsoleExpect_p ''AB'')
     (replicate a M @ [P] @ replicate b M @ [P] @ replicate (Suc (Suc c)) M) twoChunks =
   matcher_step (ConsoleExpect_p ''AB'')
     (matcher_step (ConsoleExpect_p ''AB'') (pump_step v (pump_step v twoChunks)))"
  by (simp add: run_append ab_phase1 ab_phase2 ab_phase3 ab_phase4 run_M_fix)


lemma run_P_M_M:
  assumes "matcher_step p (matcher_step p (matcher_step p (pump_step v y))) =
           matcher_step p (matcher_step p (pump_step v y))"
  shows "run v p (P # replicate (Suc (Suc d)) M) y = matcher_step p (matcher_step p (pump_step v y))"
  using run_M_fix[OF assms, of v d] by simp

text \<open>
  Claim C5.  The console delivers \<open>A\<close> in one chunk and \<open>B\<close> with a newline in a
  second one; \<open>ConsoleExpect("AB")\<close> was entered before either.  However the
  polls of the wait fall between the two pump iterations (\<open>a\<close> polls before the
  first chunk, \<open>b\<close> between the chunks, at least two after the second), the
  call returns nil, and the line buffer and the pump's carry are empty.  A
  second wait, for \<open>A\<close> or for \<open>B\<close>, entered after that and followed by the end
  of the stream, returns \<open>io.EOF\<close>: it does not see the consumed bytes again.
\<close>

theorem literal_wait_across_two_chunks:
  "ConsoleExpect_result (caller (run verbose (ConsoleExpect_p ''AB'')
      (replicate a M @ [P] @ replicate b M @ [P] @ replicate (Suc (Suc c)) M) twoChunks)) =
     Some None \<and>
   consoleData (shared (run verbose (ConsoleExpect_p ''AB'')
      (replicate a M @ [P] @ replicate b M @ [P] @ replicate (Suc (Suc c)) M) twoChunks)) = [] \<and>
   pumpSt (run verbose (ConsoleExpect_p ''AB'')
      (replicate a M @ [P] @ replicate b M @ [P] @ replicate (Suc (Suc c)) M) twoChunks) =
     Pumping [] \<and>
   ConsoleExpect_result (caller (run verbose (ConsoleExpect_p ''A'') (P # replicate (Suc (Suc d)) M)
      (again () (run verbose (ConsoleExpect_p ''AB'')
         (replicate a M @ [P] @ replicate b M @ [P] @ replicate (Suc (Suc c)) M) twoChunks)))) =
     Some (Some io_EOF) \<and>
   ConsoleExpect_result (caller (run verbose (ConsoleExpect_p ''B'') (P # replicate (Suc (Suc d)) M)
      (again () (run verbose (ConsoleExpect_p ''AB'')
         (replicate a M @ [P] @ replicate b M @ [P] @ replicate (Suc (Suc c)) M) twoChunks)))) =
     Some (Some io_EOF)"
proof -
  let ?first = "matcher_step (ConsoleExpect_p ''AB'')
     (matcher_step (ConsoleExpect_p ''AB'') (pump_step verbose (pump_step verbose twoChunks)))"
  have 1: "ConsoleExpect_result (caller ?first) = Some None"
    by (rule bool_both[of _ verbose]) code_simp+
  have 2: "consoleData (shared ?first) = []"
    by (rule bool_both[of _ verbose]) code_simp+
  have 3: "pumpSt ?first = Pumping []"
    by (rule bool_both[of _ verbose]) code_simp+
  have 4: "ConsoleExpect_result (caller
      (matcher_step (ConsoleExpect_p ''A'') (matcher_step (ConsoleExpect_p ''A'')
         (pump_step verbose (again () ?first))))) = Some (Some io_EOF)"
    by (rule bool_both[of _ verbose]) code_simp+
  have 5: "ConsoleExpect_result (caller
      (matcher_step (ConsoleExpect_p ''B'') (matcher_step (ConsoleExpect_p ''B'')
         (pump_step verbose (again () ?first))))) = Some (Some io_EOF)"
    by (rule bool_both[of _ verbose]) code_simp+
  have 6: "matcher_step (ConsoleExpect_p ''A'') (matcher_step (ConsoleExpect_p ''A'')
      (matcher_step (ConsoleExpect_p ''A'') (pump_step verbose (again () ?first)))) =
    matcher_step (ConsoleExpect_p ''A'') (matcher_step (ConsoleExpect_p ''A'')
      (pump_step verbose (again () ?first)))"
    by (rule bool_both[of _ verbose]) code_simp+
  have 7: "matcher_step (ConsoleExpect_p ''B'') (matcher_step (ConsoleExpect_p ''B'')
      (matcher_step (ConsoleExpect_p ''B'') (pump_step verbose (again () ?first)))) =
    matcher_step (ConsoleExpect_p ''B'') (matcher_step (ConsoleExpect_p ''B'')
      (pump_step verbose (again () ?first)))"
    by (rule bool_both[of _ verbose]) code_simp+
  show ?thesis
    unfolding ab_first_wait run_P_M_M[OF 6] run_P_M_M[OF 7]
    using 1 2 3 4 5 by (intro conjI)
qed

subsection \<open>Pattern waits\<close>

lemma length_submatch: "length (submatch r whole c) = Suc (NumSubexp r)"
  by (simp add: submatch_def)

lemma FindAllSubmatch_from_length:
  "m \<in> set (FindAllSubmatch_from r adj s) \<Longrightarrow> length m = Suc (NumSubexp r)"
proof (induction r adj s arbitrary: m rule: FindAllSubmatch_from.induct)
  case (1 r adj s)
  show ?case
  proof (cases "firstMatch r s")
    case None
    then show ?thesis using "1.prems" by (subst (asm) FindAllSubmatch_from.simps) simp
  next
    case (Some t)
    obtain i l c where t: "t = (i, l, c)" by (cases t)
    have mem: "m = submatch r (take l (drop i s)) c \<or>
               (s \<noteq> [] \<and> m \<in> set (FindAllSubmatch_from r (0 < i + l) (drop (max 1 (i + l)) s)))"
      using "1.prems" Some t
      by (subst (asm) FindAllSubmatch_from.simps) (auto simp: Let_def split: if_splits)
    then show ?thesis
    proof
      assume "m = submatch r (take l (drop i s)) c"
      then show ?thesis by (simp add: length_submatch)
    next
      assume a: "s \<noteq> [] \<and> m \<in> set (FindAllSubmatch_from r (0 < i + l) (drop (max 1 (i + l)) s))"
      show ?thesis
        using "1.IH"[OF Some t[symmetric] refl refl refl _ ] a t by auto
    qed
  qed
qed

lemma FindAllSubmatch_length:
  "m \<in> set (FindAllSubmatch r b) \<Longrightarrow> length m = Suc (NumSubexp r)"
  unfolding FindAllSubmatch_def by (rule FindAllSubmatch_from_length)

lemma appendGroups_firstGroups:
  "(\<And>s. s \<in> set m \<Longrightarrow> 1 < length s) \<Longrightarrow>
   appendGroups matches m = Some (matches @ firstGroups m)"
  by (induction m arbitrary: matches) (auto simp: firstGroups_def index1_def group_def)

lemma ConsoleExpectRE_p_eq:
  assumes "1 \<le> NumSubexp re"
  shows "ConsoleExpectRE_p re data matches =
           Some (FindAllSubmatch re data \<noteq> [], matches @ firstGroups (FindAllSubmatch re data))"
proof -
  have "1 < length s" if "s \<in> set (FindAllSubmatch re data)" for s
    using FindAllSubmatch_length[OF that] assms by simp
  then have "appendGroups matches (FindAllSubmatch re data) =
               Some (matches @ firstGroups (FindAllSubmatch re data))"
    by (rule appendGroups_firstGroups)
  then show ?thesis
    by (auto simp: ConsoleExpectRE_p_def Let_def firstGroups_def)
qed

lemma scanFrags_RE:
  assumes "1 \<le> NumSubexp re"
  shows "scanFrags (ConsoleExpectRE_p re) fs m0 = Some (True, later, ms) \<Longrightarrow>
         \<exists>k<length fs. FindAllSubmatch re (fs ! k) \<noteq> [] \<and>
            (\<forall>j<k. FindAllSubmatch re (fs ! j) = []) \<and>
            ms = m0 @ firstGroups (FindAllSubmatch re (fs ! k))"
proof (induction fs arbitrary: m0)
  case Nil
  then show ?case by simp
next
  case (Cons f fs)
  show ?case
  proof (cases "FindAllSubmatch re f = []")
    case True
    then have "ConsoleExpectRE_p re f m0 = Some (False, m0)"
      using ConsoleExpectRE_p_eq[OF assms, of f m0] by (simp add: firstGroups_def)
    then have "scanFrags (ConsoleExpectRE_p re) fs m0 = Some (True, later, ms)"
      using Cons.prems by simp
    then obtain k where k: "k < length fs" "FindAllSubmatch re (fs ! k) \<noteq> []"
        "\<forall>j<k. FindAllSubmatch re (fs ! j) = []"
        "ms = m0 @ firstGroups (FindAllSubmatch re (fs ! k))"
      using Cons.IH by blast
    have "\<forall>j<Suc k. FindAllSubmatch re ((f # fs) ! j) = []"
      using k(3) True by (auto simp: less_Suc_eq_0_disj)
    then show ?thesis using k by (intro exI[of _ "Suc k"]) auto
  next
    case False
    then have "ConsoleExpectRE_p re f m0 =
                 Some (True, m0 @ firstGroups (FindAllSubmatch re f))"
      using ConsoleExpectRE_p_eq[OF assms, of f m0] by simp
    then have "ms = m0 @ firstGroups (FindAllSubmatch re f)"
      using Cons.prems by simp
    then show ?thesis using False by (intro exI[of _ 0]) auto
  qed
qed

lemma firstGroups_allGroups:
  assumes "\<And>s. s \<in> set m \<Longrightarrow> length s = 2"
  shows "firstGroups m = allGroups m"
  using assms
proof (induction m)
  case Nil
  then show ?case by (simp add: firstGroups_def allGroups_def)
next
  case (Cons s m)
  have "length s = 2" using Cons.prems by simp
  then obtain a b where "s = [a, b]"
    by (cases s; cases "tl s") (auto simp: Suc_length_conv)
  then show ?case using Cons by (simp add: firstGroups_def allGroups_def)
qed


text \<open>
  Claim C1 fails for a pattern with two capturing groups: on the line
  \<open>exit_code=42\<close> the pattern \<^verbatim>\<open>(\w+)=(\d+)\<close> captures \<open>exit_code\<close> and \<open>42\<close>, and
  \<open>ConsoleExpectRE\<close> returns \<open>exit_code\<close> alone.
\<close>

theorem pattern_wait_drops_later_groups:
  "1 \<le> NumSubexp keyValueRe \<and>
   ConsoleExpectRE_result (caller (run False (ConsoleExpectRE_p keyValueRe) [P, M, M]
      (session [(''exit_code=42\<newline>'', None)] []))) = Some (Inr [''exit_code'']) \<and>
   allGroups (FindAllSubmatch keyValueRe ''exit_code=42\<newline>'') = [''exit_code'', ''42'']"
  by code_simp

text \<open>
  Claim C1, amended.  For a pattern with at least one capturing group the
  processor of \<open>ConsoleExpectRE\<close> matches a fragment exactly when the pattern
  has a match in it, and then appends the first captured group of every match
  in the fragment, in order.  When the scan of a buffer ends in a match, the
  matches returned are the first groups of the matches in the first fragment
  that has one.  For a pattern with exactly one group these are all captured
  groups.  A pattern wait for \<^verbatim>\<open>exit_code=(\d+)\<close> on the line \<open>exit_code=42\<close>
  returns exactly \<open>["42"]\<close>.
\<close>

theorem pattern_wait_returns_first_groups:
  assumes "1 \<le> NumSubexp re"
  shows "ConsoleExpectRE_p re data matches =
           Some (FindAllSubmatch re data \<noteq> [], matches @ firstGroups (FindAllSubmatch re data)) \<and>
         (scanLines (ConsoleExpectRE_p re) buf [] = Some (True, rest, ms) \<longrightarrow>
            (\<exists>k<length (fragments buf).
                FindAllSubmatch re (fragments buf ! k) \<noteq> [] \<and>
                (\<forall>j<k. FindAllSubmatch re (fragments buf ! j) = []) \<and>
                ms = firstGroups (FindAllSubmatch re (fragments buf ! k)))) \<and>
         (NumSubexp re = 1 \<longrightarrow>
            firstGroups (FindAllSubmatch re data) = allGroups (FindAllSubmatch re data)) \<and>
         ConsoleExpectRE_result (caller (run verbose (ConsoleExpectRE_p exitCodeRe) [P, M, M]
            (session [(''exit_code=42\<newline>'', None)] []))) = Some (Inr [''42''])"
proof -
  have a: "ConsoleExpectRE_p re data matches =
           Some (FindAllSubmatch re data \<noteq> [], matches @ firstGroups (FindAllSubmatch re data))"
    using assms by (rule ConsoleExpectRE_p_eq)
  have b: "scanLines (ConsoleExpectRE_p re) buf [] = Some (True, rest, ms) \<longrightarrow>
            (\<exists>k<length (fragments buf).
                FindAllSubmatch re (fragments buf ! k) \<noteq> [] \<and>
                (\<forall>j<k. FindAllSubmatch re (fragments buf ! j) = []) \<and>
                ms = firstGroups (FindAllSubmatch re (fragments buf ! k)))"
    using scanFrags_RE[OF assms, of "fragments buf" "[]" _ ms]
    by (auto simp: scanLines_scanFrags)
  have c: "NumSubexp re = 1 \<longrightarrow>
            firstGroups (FindAllSubmatch re data) = allGroups (FindAllSubmatch re data)"
  proof
    assume one: "NumSubexp re = 1"
    have "length s = 2" if "s \<in> set (FindAllSubmatch re data)" for s
      using FindAllSubmatch_length[OF that] one by simp
    then show "firstGroups (FindAllSubmatch re data) = allGroups (FindAllSubmatch re data)"
      by (rule firstGroups_allGroups)
  qed
  have d: "ConsoleExpectRE_result (caller (run verbose (ConsoleExpectRE_p exitCodeRe) [P, M, M]
            (session [(''exit_code=42\<newline>'', None)] []))) = Some (Inr [''42''])"
    by (rule bool_both[of _ verbose]) code_simp+
  show ?thesis using a b c d by (intro conjI)
qed

theorem pattern_wait_returns_first_groups_witness:
  "1 \<le> NumSubexp exitCodeRe \<and>
   scanLines (ConsoleExpectRE_p exitCodeRe) ''boot\<newline>exit_code=42 exit_code=7\<newline>$ '' [] =
     Some (True, ''$ '', [''42'', ''7'']) \<and>
   NumSubexp exitCodeRe = 1 \<and>
   ConsoleExpectRE_p exitCodeRe ''exit_code=42\<newline>'' [] =
     Some (FindAllSubmatch exitCodeRe ''exit_code=42\<newline>'' \<noteq> [],
           [] @ firstGroups (FindAllSubmatch exitCodeRe ''exit_code=42\<newline>'')) \<and>
   firstGroups (FindAllSubmatch exitCodeRe ''exit_code=42\<newline>'') = [''42''] \<and>
   allGroups (FindAllSubmatch exitCodeRe ''exit_code=42\<newline>'') = [''42''] \<and>
   (\<exists>k<length (fragments ''boot\<newline>exit_code=42 exit_code=7\<newline>$ '').
       [''42'', ''7''] =
       firstGroups (FindAllSubmatch exitCodeRe
          (fragments ''boot\<newline>exit_code=42 exit_code=7\<newline>$ '' ! k)))"
proof -
  have h1: "1 \<le> NumSubexp exitCodeRe" by code_simp
  have h2: "scanLines (ConsoleExpectRE_p exitCodeRe)
      ''boot\<newline>exit_code=42 exit_code=7\<newline>$ '' [] = Some (True, ''$ '', [''42'', ''7''])"
    by code_simp
  have h3: "NumSubexp exitCodeRe = 1" by code_simp
  have f: "firstGroups (FindAllSubmatch exitCodeRe ''exit_code=42\<newline>'') = [''42'']"
    by code_simp
  note w = pattern_wait_returns_first_groups [OF h1, where data = "''exit_code=42\<newline>''"
      and matches = "[]" and buf = "''boot\<newline>exit_code=42 exit_code=7\<newline>$ ''"
      and rest = "''$ ''" and ms = "[''42'', ''7'']" and verbose = False]
  have g: "allGroups (FindAllSubmatch exitCodeRe ''exit_code=42\<newline>'') = [''42'']"
    using w h3 f by simp
  show ?thesis using h1 h2 h3 f g w by blast
qed

subsection \<open>Starting and stopping\<close>

lemma monitorWrites_simps:
  "monitorWrites [] = []"
  "monitorWrites (a # xs) = (case a of MonitorWrite b \<Rightarrow> [b] | _ \<Rightarrow> []) @ monitorWrites xs"
  "monitorWrites (xs @ ys) = monitorWrites xs @ monitorWrites ys"
  by (simp_all add: monitorWrites_def)

lemma effects_simps:
  "effects [] = []"
  "effects (a # xs) = (case a of LogPrint l \<Rightarrow> [] | _ \<Rightarrow> [a]) @ effects xs"
  "effects (xs @ ys) = effects xs @ effects ys"
  by (simp_all add: effects_def split: action.splits)

lemma monitorWrites_wait: "monitorWrites (wait w q) = []"
  by (cases "waitChValue w"; cases "removeAllErr w") (simp_all add: wait_def monitorWrites_simps)

lemma effects_wait:
  "effects (wait w q) =
     [RecvWaitCh, CtxCancel, ConsoleClose, ConsoleListenerClose, MonitorClose,
      MonitorListenerClose, RemoveAll (socketsDir q)]"
  by (cases "waitChValue w"; cases "removeAllErr w") (simp_all add: wait_def effects_simps)

text \<open>
  Claim C7.  \<open>Kill\<close> writes to the monitor exactly the line \<open>quit\<close>, \<open>Shutdown\<close>
  exactly the line \<open>system_powerdown\<close>.  A failure of that write adds a log line
  and nothing else: neither function returns a value, and what follows does
  not depend on the failure.  Both then run \<open>wait\<close>, whose actions apart from
  log lines are: receive from \<open>waitCh\<close>, cancel the context, close the console
  connection and its listener, close the monitor connection and its listener,
  remove the sockets directory with everything in it.
\<close>

theorem kill_and_shutdown_finalize_alike:
  "monitorWrites (Kill w q) = [''quit\<newline>''] \<and>
   monitorWrites (Shutdown w q) = [''system_powerdown\<newline>''] \<and>
   Kill w q = MonitorWrite ''quit\<newline>'' #
      (case monitorWriteErr w of Some err \<Rightarrow> [LogPrint (''monitor: '' @ err)] | None \<Rightarrow> []) @ wait w q \<and>
   Shutdown w q = MonitorWrite ''system_powerdown\<newline>'' #
      (case monitorWriteErr w of Some err \<Rightarrow> [LogPrint (''monitor: '' @ err)] | None \<Rightarrow> []) @ wait w q \<and>
   wait (w\<lparr>monitorWriteErr := e\<rparr>) q = wait w q \<and>
   effects (Kill w q) = MonitorWrite ''quit\<newline>'' # effects (wait w q) \<and>
   effects (Shutdown w q) = MonitorWrite ''system_powerdown\<newline>'' # effects (wait w q) \<and>
   effects (wait w q) =
     [RecvWaitCh, CtxCancel, ConsoleClose, ConsoleListenerClose, MonitorClose,
      MonitorListenerClose, RemoveAll (socketsDir q)]"
proof -
  have 1: "monitorWrites (Kill w q) = [''quit\<newline>'']"
    by (cases "monitorWriteErr w") (simp_all add: Kill_def monitorWrites_simps monitorWrites_wait)
  have 2: "monitorWrites (Shutdown w q) = [''system_powerdown\<newline>'']"
    by (cases "monitorWriteErr w") (simp_all add: Shutdown_def monitorWrites_simps monitorWrites_wait)
  have 3: "Kill w q = MonitorWrite ''quit\<newline>'' #
      (case monitorWriteErr w of Some err \<Rightarrow> [LogPrint (''monitor: '' @ err)] | None \<Rightarrow> []) @ wait w q"
    by (simp add: Kill_def)
  have 4: "Shutdown w q = MonitorWrite ''system_powerdown\<newline>'' #
      (case monitorWriteErr w of Some err \<Rightarrow> [LogPrint (''monitor: '' @ err)] | None \<Rightarrow> []) @ wait w q"
    by (simp add: Shutdown_def)
  have 5: "wait (w\<lparr>monitorWriteErr := e\<rparr>) q = wait w q"
    by (simp add: wait_def)
  have 6: "effects (Kill w q) = MonitorWrite ''quit\<newline>'' # effects (wait w q)"
    by (cases "monitorWriteErr w") (simp_all add: Kill_def effects_simps)
  have 7: "effects (Shutdown w q) = MonitorWrite ''system_powerdown\<newline>'' # effects (wait w q)"
    by (cases "monitorWriteErr w") (simp_all add: Shutdown_def effects_simps)
  show ?thesis using 1 2 3 4 5 6 7 effects_wait[of w q] by (intro conjI)
qed

lemma spawned_append: "spawned (xs @ ys) = spawned xs @ spawned ys"
  by (simp add: spawned_def)

text \<open>
  Claim C10.  With an empty \<open>Kernel\<close> and a non-empty \<open>Append\<close>, \<open>NewQemu\<close> returns
  no session and an error, whatever the operating system answers, and its
  actions include no start of the emulator process.  When the directory and
  the two listeners were created, the error is the one about \<open>opts.Append\<close>.
\<close>

theorem append_without_kernel_is_rejected:
  assumes "Kernel opts = []" and "Append opts \<noteq> []"
  shows "fst (snd (snd (NewQemu w opts))) = None \<and>
         snd (snd (snd (NewQemu w opts))) \<noteq> None \<and>
         spawned (fst (snd (NewQemu w opts))) = [] \<and>
         (tempDirResult w = Inr tempDir \<and> listenMonitorErr w = None \<and> listenConsoleErr w = None \<longrightarrow>
            snd (snd (snd (NewQemu w opts))) =
              Some ''opts.Append only allowed with opts.Kernel option'')"
  using assms
  by (auto simp: NewQemu_def Let_def spawned_def split: sum.splits option.splits)


theorem append_without_kernel_is_rejected_witness:
  "Kernel \<lparr>Architecture = [], OperatingSystem = OS_LINUX, Params = [], Verbose = True,
       Timeout = 0, Kernel = [], InitRamFs = [], Disks = [], Append = [''quiet''], CdRom = []\<rparr> = [] \<and>
   Append \<lparr>Architecture = [], OperatingSystem = OS_LINUX, Params = [], Verbose = True,
       Timeout = 0, Kernel = [], InitRamFs = [], Disks = [], Append = [''quiet''], CdRom = []\<rparr> \<noteq> [] \<and>
   NewQemu \<lparr>tempDirResult = Inr ''/tmp/vmtest1'', listenMonitorErr = None, listenConsoleErr = None,
       startErr = None, acceptMonitorErr = None, waitChAtMonitor = None, acceptConsoleErr = None,
       waitChAtConsole = None\<rparr>
     \<lparr>Architecture = [], OperatingSystem = OS_LINUX, Params = [], Verbose = True,
       Timeout = 0, Kernel = [], InitRamFs = [], Disks = [], Append = [''quiet''], CdRom = []\<rparr> =
   (\<lparr>Architecture = ''x86_64'', OperatingSystem = OS_LINUX, Params = [], Verbose = True,
       Timeout = 30000000000, Kernel = [], InitRamFs = [], Disks = [], Append = [''quiet''],
       CdRom = []\<rparr>,
    [TempDir, Listen ''/tmp/vmtest1/monitor.socket'', Listen ''/tmp/vmtest1/console.socket''],
    None, Some ''opts.Append only allowed with opts.Kernel option'') \<and>
   spawned [TempDir, Listen ''/tmp/vmtest1/monitor.socket'', Listen ''/tmp/vmtest1/console.socket''] = []"
proof -
  let ?opts = "\<lparr>Architecture = [], OperatingSystem = OS_LINUX, Params = [], Verbose = True,
       Timeout = 0, Kernel = [], InitRamFs = [], Disks = [], Append = [''quiet''], CdRom = []\<rparr>"
  let ?w = "\<lparr>tempDirResult = Inr ''/tmp/vmtest1'', listenMonitorErr = None, listenConsoleErr = None,
       startErr = None, acceptMonitorErr = None, waitChAtMonitor = None, acceptConsoleErr = None,
       waitChAtConsole = None\<rparr>"
  have h1: "Kernel ?opts = []" by simp
  have h2: "Append ?opts \<noteq> []" by simp
  have n: "NewQemu ?w ?opts =
   (\<lparr>Architecture = ''x86_64'', OperatingSystem = OS_LINUX, Params = [], Verbose = True,
       Timeout = 30000000000, Kernel = [], InitRamFs = [], Disks = [], Append = [''quiet''],
       CdRom = []\<rparr>,
    [TempDir, Listen ''/tmp/vmtest1/monitor.socket'', Listen ''/tmp/vmtest1/console.socket''],
    None, Some ''opts.Append only allowed with opts.Kernel option'')"
    by (simp add: NewQemu_def qemuDefaultTimeout_def QEMU_X86_64_def)
  have "spawned (fst (snd (NewQemu ?w ?opts))) = []"
    using append_without_kernel_is_rejected [OF h1 h2, of ?w] by blast
  then have s: "spawned [TempDir, Listen ''/tmp/vmtest1/monitor.socket'',
                         Listen ''/tmp/vmtest1/console.socket''] = []"
    unfolding n by simp
  show ?thesis using h1 h2 n s by (intro conjI)
qed

text \<open>With a kernel the same options start the emulator.\<close>

lemma NewQemu_starts_the_emulator:
  "spawned (fst (snd (NewQemu
     \<lparr>tempDirResult = Inr ''/tmp/vmtest1'', listenMonitorErr = None, listenConsoleErr = None,
       startErr = None, acceptMonitorErr = None, waitChAtMonitor = None, acceptConsoleErr = None,
       waitChAtConsole = None\<rparr>
     \<lparr>Architecture = ''arm'', OperatingSystem = OS_LINUX, Params = [''-m'', ''128M''],
       Verbose = False, Timeout = 5000000000, Kernel = ''testdata/hello-arm.bin'', InitRamFs = [],
       Disks = [\<lparr>Path = ''a.img'', Format = ''raw'', Controller = [], DeviceParams = []\<rparr>],
       Append = [''quiet''], CdRom = []\<rparr>))) =
   [CmdStart ''qemu-system-arm''
      [''-monitor'', ''unix:/tmp/vmtest1/monitor.socket'',
       ''-serial'', ''unix:/tmp/vmtest1/console.socket'',
       ''-no-reboot'', ''-nographic'', ''-display'', ''none'',
       ''-kernel'', ''testdata/hello-arm.bin'',
       ''-append'', ''quiet console=ttyS0,115200 ignore_loglevel'',
       ''-m'', ''128M'',
       ''-device'', ''virtio-scsi-pci,id=scsi'',
       ''-drive'', ''format=raw,if=none,id=hd0,file=a.img'',
       ''-device'', ''scsi-hd,drive=hd0'']
      5000000000]"
  by code_simp

end
